theory Spec2Isabelle
  imports Main "HOL-Library.Sublist" "HOL-Library.AList" "HOL-Library.Char_ord"
    "HOL-Library.List_Lexorder"
begin

section \<open>The metadata injector \<^verbatim>\<open>tools/add-openclaw-metadata.py\<close>\<close>

text \<open>
  The script rewrites the leading metadata block of \<^verbatim>\<open>SKILL.md\<close> files. A Python \<^verbatim>\<open>str\<close>
  is modelled as a \<^typ>\<open>string\<close> holding the UTF-8 encoding of the text, which is what the file
  holds on disk. Every marker, key and separator the script searches for is ASCII, and an ASCII
  byte never occurs inside a multi-byte UTF-8 sequence, so prefix tests, substring searches and
  the slices taken at the positions found agree with Python's on code points. The lengths the
  script takes (\<^verbatim>\<open>len(x[0])\<close> of the table keys) are of ASCII strings.
\<close>

subsection \<open>Python string operations\<close>

datatype py_error = ValueError | IndexError | FileNotFoundError

text \<open>\<^verbatim>\<open>s.startswith(p)\<close>\<close>

definition startswith :: "string \<Rightarrow> string \<Rightarrow> bool" where
  "startswith s p = prefix p s"

text \<open>\<^verbatim>\<open>s.find(sub)\<close>: the lowest index at which \<^verbatim>\<open>sub\<close> occurs, \<open>None\<close> for Python's \<^verbatim>\<open>-1\<close>.\<close>

fun find_sub :: "string \<Rightarrow> string \<Rightarrow> nat option" where
  "find_sub sub [] = (if sub = [] then Some 0 else None)"
| "find_sub sub (c # cs) =
     (if prefix sub (c # cs) then Some 0 else map_option Suc (find_sub sub cs))"

text \<open>\<^verbatim>\<open>sub in s\<close>\<close>

definition str_contains :: "string \<Rightarrow> string \<Rightarrow> bool" where
  "str_contains sub s = (find_sub sub s \<noteq> None)"

text \<open>\<^verbatim>\<open>s.index(sub, start)\<close> for \<^verbatim>\<open>start >= 0\<close>: raises \<^verbatim>\<open>ValueError\<close> when there is no occurrence
  at or after \<^verbatim>\<open>start\<close>.\<close>

definition str_index :: "string \<Rightarrow> string \<Rightarrow> nat \<Rightarrow> py_error + nat" where
  "str_index s sub start =
     (if start \<le> length s
      then (case find_sub sub (drop start s) of
              None \<Rightarrow> Inl ValueError
            | Some i \<Rightarrow> Inr (start + i))
      else Inl ValueError)"

text \<open>\<^verbatim>\<open>s.split(sep)\<close> for a non-empty separator: the pieces between the non-overlapping
  occurrences of \<^verbatim>\<open>sep\<close>, found from the left. (Python raises on an empty separator; the
  script only splits on \<^verbatim>\<open>"\n"\<close> and \<^verbatim>\<open>"\n---\n"\<close>.)\<close>

function str_split :: "string \<Rightarrow> string \<Rightarrow> string list" where
  "str_split sep s =
     (if sep = [] then []
      else (case find_sub sep s of
              None \<Rightarrow> [s]
            | Some i \<Rightarrow> take i s # str_split sep (drop (i + length sep) s)))"
  by pat_completeness auto
termination
proof (relation "measure (\<lambda>(sep, s). length s)")
  show "wf (measure (\<lambda>(sep, s). length s))" by simp
next
  fix sep s :: string and i :: nat
  assume "sep \<noteq> []" and "find_sub sep s = Some i"
  then have "s \<noteq> []" by (cases s) auto
  with \<open>sep \<noteq> []\<close> show "((sep, drop (i + length sep) s), (sep, s)) \<in> measure (\<lambda>(sep, s). length s)"
    by (cases s) auto
qed

declare str_split.simps [simp del]

text \<open>\<^verbatim>\<open>sep.join(xs)\<close>\<close>

fun str_join :: "string \<Rightarrow> string list \<Rightarrow> string" where
  "str_join sep [] = []"
| "str_join sep [x] = x"
| "str_join sep (x # y # ys) = x @ sep @ str_join sep (y # ys)"

text \<open>\<^verbatim>\<open>xs[0]\<close>\<close>

definition item0 :: "'a list \<Rightarrow> py_error + 'a" where
  "item0 xs = (case xs of [] \<Rightarrow> Inl IndexError | x # _ \<Rightarrow> Inr x)"

subsection \<open>The frontmatter parser\<close>

text \<open>
  \<^verbatim>\<open>
  def parse_frontmatter(content):
      if not content.startswith("---\n"):
          raise ValueError("No YAML frontmatter found")
      end_idx = content.index("\n---\n", 4)
      fm_text = content[4:end_idx]
      body = content[end_idx + 5:]  # skip \n---\n
      return fm_text, body, content[:end_idx + 5]
  \<close>
\<close>

definition start_marker :: string where
  "start_marker = ''---\<newline>''"

definition end_marker :: string where
  "end_marker = ''\<newline>---\<newline>''"

definition parse_frontmatter :: "string \<Rightarrow> py_error + (string \<times> string \<times> string)" where
  "parse_frontmatter content =
     (if \<not> startswith content ''---\<newline>'' then Inl ValueError
      else (case str_index content ''\<newline>---\<newline>'' 4 of
              Inl e \<Rightarrow> Inl e
            | Inr end_idx \<Rightarrow>
                (let fm_text = drop 4 (take end_idx content);
                     body = drop (end_idx + 5) content
                 in Inr (fm_text, body, take (end_idx + 5) content))))"

subsection \<open>The tables and the decorative-value lookup\<close>

text \<open>
  A Python \<^verbatim>\<open>dict\<close> literal is modelled as the association list of its items in insertion
  order, which is the order \<^verbatim>\<open>.items()\<close> yields them in. The values are the UTF-8 bytes of
  the emoji given in the source by their escapes.
\<close>

definition EMOJI_MAP :: "(string \<times> string) list" where
  "EMOJI_MAP =
   [(''personas/engineering'', [CHR 0xF0, CHR 0x9F, CHR 0x94, CHR 0xA7]),
    (''personas/data'', [CHR 0xF0, CHR 0x9F, CHR 0x93, CHR 0x8A]),
    (''personas/devops'', [CHR 0xE2, CHR 0x9A, CHR 0x99, CHR 0xEF, CHR 0xB8, CHR 0x8F]),
    (''personas/claude-code'', [CHR 0xF0, CHR 0x9F, CHR 0xA4, CHR 0x96]),
    (''personas/security'', [CHR 0xF0, CHR 0x9F, CHR 0x9B, CHR 0xA1, CHR 0xEF, CHR 0xB8, CHR 0x8F]),
    (''personas/web'', [CHR 0xF0, CHR 0x9F, CHR 0x8C, CHR 0x90]),
    (''personas/api'', [CHR 0xF0, CHR 0x9F, CHR 0xA7, CHR 0xAA]),
    (''personas/domain/eve-esi'', [CHR 0xF0, CHR 0x9F, CHR 0x9A, CHR 0x80]),
    (''personas/domain/hauling-business-advisor'', [CHR 0xF0, CHR 0x9F, CHR 0x9A, CHR 0x9B]),
    (''personas/domain/hauling-image-estimator'', [CHR 0xF0, CHR 0x9F, CHR 0x9A, CHR 0x9B]),
    (''personas/domain/hauling-job-scheduler'', [CHR 0xF0, CHR 0x9F, CHR 0x9A, CHR 0x9B]),
    (''personas/domain/hauling-lead-qualifier'', [CHR 0xF0, CHR 0x9F, CHR 0x9A, CHR 0x9B]),
    (''personas/domain/hauling-quote-generator'', [CHR 0xF0, CHR 0x9F, CHR 0x9A, CHR 0x9B]),
    (''personas/domain/gamedev'', [CHR 0xF0, CHR 0x9F, CHR 0x8E, CHR 0xAE]),
    (''personas/domain/tie-dye-business-coach'', [CHR 0xF0, CHR 0x9F, CHR 0x8E, CHR 0xA8]),
    (''personas/domain/apple-dev-best-practices'', [CHR 0xF0, CHR 0x9F, CHR 0x93, CHR 0xB1]),
    (''personas/domain/mentor-linux'', [CHR 0xF0, CHR 0x9F, CHR 0x90, CHR 0xA7]),
    (''personas/domain/streamlit'', [CHR 0xF0, CHR 0x9F, CHR 0x93, CHR 0x8A]),
    (''personas/domain/strategic-planner'', [CHR 0xF0, CHR 0x9F, CHR 0x93, CHR 0x8B]),
    (''agents/system'', [CHR 0xF0, CHR 0x9F, CHR 0x93, CHR 0x81]),
    (''agents/browser'', [CHR 0xF0, CHR 0x9F, CHR 0x94, CHR 0x8D]),
    (''agents/email'', [CHR 0xE2, CHR 0x9C, CHR 0x89, CHR 0xEF, CHR 0xB8, CHR 0x8F]),
    (''agents/integrations'', [CHR 0xF0, CHR 0x9F, CHR 0x94, CHR 0x97]),
    (''agents/orchestration'', [CHR 0xF0, CHR 0x9F, CHR 0xA7, CHR 0xA9]),
    (''agents/analysis'', [CHR 0xF0, CHR 0x9F, CHR 0x94, CHR 0xAC]),
    (''workflows'', [CHR 0xF0, CHR 0x9F, CHR 0x93, CHR 0x8B])]"

definition API_EMOJI_OVERRIDES :: "(string \<times> string) list" where
  "API_EMOJI_OVERRIDES =
   [(''api-tester'', [CHR 0xF0, CHR 0x9F, CHR 0xA7, CHR 0xAA]),
    (''database-ops'', [CHR 0xF0, CHR 0x9F, CHR 0x97, CHR 0x84, CHR 0xEF, CHR 0xB8, CHR 0x8F]),
    (''webhook-designer'', [CHR 0xF0, CHR 0x9F, CHR 0xAA, CHR 0xA9]),
    (''oauth-integrator'', [CHR 0xF0, CHR 0x9F, CHR 0x94, CHR 0x90])]"

definition ALL_OS :: "string list" where
  "ALL_OS = [''darwin'', ''linux'', ''win32'']"

text \<open>The fallback \<^verbatim>\<open>"\U0001f4e6"\<close> returned on the last line of \<^verbatim>\<open>get_emoji\<close>.\<close>

definition fallback_emoji :: string where
  "fallback_emoji = [CHR 0xF0, CHR 0x9F, CHR 0x93, CHR 0xA6]"

text \<open>
  \<^verbatim>\<open>
  def get_emoji(skill_path, skill_name):
      if skill_name in API_EMOJI_OVERRIDES:
          return API_EMOJI_OVERRIDES[skill_name]
      for prefix, emoji in sorted(EMOJI_MAP.items(), key=lambda x: -len(x[0])):
          if skill_path.startswith(prefix):
              return emoji
      return "\U0001f4e6"
  \<close>
  The two module-level tables are passed explicitly to \<open>get_emoji_with\<close>, so that the
  lookup can also be stated for other tables; \<open>get_emoji\<close> is the function of the source.
  Python's \<^verbatim>\<open>sorted\<close> is stable, as \<^const>\<open>sort_key\<close> is. The \<^verbatim>\<open>for\<close> loop is \<open>first_prefix\<close>.
\<close>

fun first_prefix :: "string \<Rightarrow> (string \<times> string) list \<Rightarrow> string option" where
  "first_prefix skill_path [] = None"
| "first_prefix skill_path ((pre, emoji) # rest) =
     (if startswith skill_path pre then Some emoji else first_prefix skill_path rest)"

definition get_emoji_with ::
  "(string \<times> string) list \<Rightarrow> (string \<times> string) list \<Rightarrow> string \<Rightarrow> string \<Rightarrow> string" where
  "get_emoji_with overrides emoji_map skill_path skill_name =
     (case map_of overrides skill_name of
        Some emoji \<Rightarrow> emoji
      | None \<Rightarrow>
         (case first_prefix skill_path (sort_key (\<lambda>x. - int (length (fst x))) emoji_map) of
            Some emoji \<Rightarrow> emoji
          | None \<Rightarrow> fallback_emoji))"

definition get_emoji :: "string \<Rightarrow> string \<Rightarrow> string" where
  "get_emoji skill_path skill_name =
     get_emoji_with API_EMOJI_OVERRIDES EMOJI_MAP skill_path skill_name"

subsection \<open>Serialising the metadata line\<close>

text \<open>
  \<^verbatim>\<open>json.dumps(obj, ensure_ascii=False)\<close> on the values the script builds: strings, lists and
  dicts, with the default separators \<^verbatim>\<open>", "\<close> and \<^verbatim>\<open>": "\<close>. With \<^verbatim>\<open>ensure_ascii=False\<close> a string
  is quoted and only the double quote, the backslash and the control characters below
  \<^verbatim>\<open>0x20\<close> are escaped; every other character is emitted as it is.
\<close>

datatype json = JString string | JArray "json list" | JObject "(string \<times> json) list"

definition hex_digit :: "nat \<Rightarrow> char" where
  "hex_digit n = (if n < 10 then char_of (48 + n) else char_of (87 + n))"

definition escape_char :: "char \<Rightarrow> string" where
  "escape_char c =
     (if c = CHR 0x22 then [CHR 0x5C, CHR 0x22]
      else if c = CHR 0x5C then [CHR 0x5C, CHR 0x5C]
      else if c = CHR 0x0A then [CHR 0x5C, CHR ''n'']
      else if c = CHR 0x0D then [CHR 0x5C, CHR ''r'']
      else if c = CHR 0x09 then [CHR 0x5C, CHR ''t'']
      else if c = CHR 0x08 then [CHR 0x5C, CHR ''b'']
      else if c = CHR 0x0C then [CHR 0x5C, CHR ''f'']
      else if (of_char c :: nat) < 32
        then [CHR 0x5C, CHR ''u'', CHR ''0'', CHR ''0'',
              hex_digit (of_char c div 16), hex_digit (of_char c mod 16)]
      else [c])"

definition encode_basestring :: "string \<Rightarrow> string" where
  "encode_basestring s = [CHR 0x22] @ concat (map escape_char s) @ [CHR 0x22]"

fun json_dumps :: "json \<Rightarrow> string" where
  "json_dumps (JString s) = encode_basestring s"
| "json_dumps (JArray xs) = ''['' @ str_join '', '' (map json_dumps xs) @ '']''"
| "json_dumps (JObject kvs) =
     ''{'' @ str_join '', '' (map (\<lambda>(k, v). encode_basestring k @ '': '' @ json_dumps v) kvs) @ ''}''"

text \<open>
  \<^verbatim>\<open>
  def build_metadata_line(skill_path, skill_name):
      emoji = get_emoji(skill_path, skill_name)
      metadata = {"openclaw": {"emoji": emoji, "os": ALL_OS}}
      return f"metadata: {json.dumps(metadata, ensure_ascii=False)}"
  \<close>
\<close>

definition build_metadata_line :: "string \<Rightarrow> string \<Rightarrow> string" where
  "build_metadata_line skill_path skill_name =
     (let emoji = get_emoji skill_path skill_name;
          metadata = JObject [(''openclaw'',
                       JObject [(''emoji'', JString emoji), (''os'', JArray (map JString ALL_OS))])]
      in ''metadata: '' @ json_dumps metadata)"

subsection \<open>The name check\<close>

text \<open>
  \<^verbatim>\<open>
  OPENCLAW_NAME_RE = re.compile(r"^[a-z0-9][a-z0-9-]*$")
  ...
  name_match = re.search(r"^name:\s*(.+)$", fm_text, re.MULTILINE)
  if name_match:
      name_val = name_match.group(1).strip().strip('"').strip("'")
      if not OPENCLAW_NAME_RE.match(name_val):
          print(f"  WARN {rel_path}: name '{name_val}' doesn't match OpenClaw regex")
  \<close>
  The check only prints. Whitespace (\<^verbatim>\<open>\s\<close> and \<^verbatim>\<open>strip()\<close>) is the ASCII whitespace of Python:
  tab, newline, vertical tab, form feed, carriage return, the separators \<^verbatim>\<open>0x1c\<close> to \<^verbatim>\<open>0x1f\<close>
  and the space.
\<close>

definition is_space :: "char \<Rightarrow> bool" where
  "is_space c = ((of_char c :: nat) \<in> {9, 10, 11, 12, 13, 28, 29, 30, 31, 32})"

text \<open>\<^verbatim>\<open>s.strip()\<close> and \<^verbatim>\<open>s.strip(chars)\<close>\<close>

definition strip_where :: "(char \<Rightarrow> bool) \<Rightarrow> string \<Rightarrow> string" where
  "strip_where P s = rev (dropWhile P (rev (dropWhile P s)))"

definition str_strip :: "string \<Rightarrow> string" where
  "str_strip s = strip_where is_space s"

definition str_strip_chars :: "string \<Rightarrow> string \<Rightarrow> string" where
  "str_strip_chars chars s = strip_where (\<lambda>c. c \<in> set chars) s"

text \<open>
  The rest of the pattern after \<^verbatim>\<open>name:\<close>, on the text that follows it: \<^verbatim>\<open>\s*\<close> takes the
  longest run of whitespace and gives characters back one at a time until \<^verbatim>\<open>(.+)$\<close> matches,
  which it does as soon as the next character exists and is not a newline; the group is then
  the rest of that line.
\<close>

definition name_group :: "string \<Rightarrow> string option" where
  "name_group rest =
     (let w = length (takeWhile is_space rest)
      in case filter (\<lambda>k. k < length rest \<and> rest ! k \<noteq> CHR 0x0A) (rev [0..<Suc w]) of
           [] \<Rightarrow> None
         | k # _ \<Rightarrow> Some (takeWhile (\<lambda>c. c \<noteq> CHR 0x0A) (drop k rest)))"

text \<open>\<^verbatim>\<open>re.search\<close> tries the positions from the left; with \<^verbatim>\<open>re.MULTILINE\<close> the anchor \<^verbatim>\<open>^\<close>
  holds at the start of the text and after each newline (\<open>bol\<close>).\<close>

fun search_name :: "bool \<Rightarrow> string \<Rightarrow> string option" where
  "search_name bol [] = None"
| "search_name bol (c # cs) =
     (case (if bol \<and> prefix ''name:'' (c # cs) then name_group (drop 5 (c # cs)) else None) of
        Some g \<Rightarrow> Some g
      | None \<Rightarrow> search_name (c = CHR 0x0A) cs)"

definition lower_or_digit :: "char \<Rightarrow> bool" where
  "lower_or_digit c =
     (let n = (of_char c :: nat) in (97 \<le> n \<and> n \<le> 122) \<or> (48 \<le> n \<and> n \<le> 57))"

text \<open>\<^verbatim>\<open>OPENCLAW_NAME_RE.match(s)\<close>; without \<^verbatim>\<open>re.MULTILINE\<close> the anchor \<^verbatim>\<open>$\<close> also holds before a
  newline that ends the text.\<close>

definition openclaw_name_match :: "string \<Rightarrow> bool" where
  "openclaw_name_match s =
     (let t = (if s \<noteq> [] \<and> last s = CHR 0x0A then butlast s else s)
      in case t of
           [] \<Rightarrow> False
         | c # cs \<Rightarrow> lower_or_digit c \<and> list_all (\<lambda>d. lower_or_digit d \<or> d = CHR ''-'') cs)"

subsection \<open>Paths, files and output\<close>

text \<open>
  A path is the list of its components relative to \<^verbatim>\<open>REPO_ROOT\<close>, as \<^verbatim>\<open>relative_to\<close> gives
  it. The world is the files under \<^verbatim>\<open>REPO_ROOT\<close> with their contents and the lines printed so
  far, one entry for each call of \<^verbatim>\<open>print\<close>.
  Reading a path that is not a file raises; a file's text is taken to decode, and writing to
  succeed (the script handles neither failure, which would end the run).
\<close>

type_synonym path = "string list"

record world =
  files :: "(path \<times> string) list"
  stdout :: "string list"

text \<open>\<^verbatim>\<open>p.parent\<close>, \<^verbatim>\<open>str(p)\<close> and \<^verbatim>\<open>p.name\<close> of a relative POSIX path\<close>

definition parent :: "path \<Rightarrow> path" where
  "parent p = butlast p"

definition path_str :: "path \<Rightarrow> string" where
  "path_str p = (if p = [] then ''.'' else str_join ''/'' p)"

definition path_name :: "path \<Rightarrow> string" where
  "path_name p = (if p = [] then [] else last p)"

definition read_text :: "path \<Rightarrow> world \<Rightarrow> py_error + string" where
  "read_text p w = (case map_of (files w) p of None \<Rightarrow> Inl FileNotFoundError | Some c \<Rightarrow> Inr c)"

definition write_text :: "path \<Rightarrow> string \<Rightarrow> world \<Rightarrow> world" where
  "write_text p c w = w\<lparr>files := AList.update p c (files w)\<rparr>"

definition print :: "string \<Rightarrow> world \<Rightarrow> world" where
  "print line w = w\<lparr>stdout := stdout w @ [line]\<rparr>"

subsection \<open>Splicing the new lines into the block\<close>

text \<open>
  \<^verbatim>\<open>
  new_lines = []
  metadata_inserted = False
  user_invocable_inserted = False
  for line in fm_lines:
      new_lines.append(line)
      if line.startswith("description:") and not metadata_inserted:
          new_lines.append(metadata_line)
          metadata_inserted = True
          if is_persona and not user_invocable_inserted:
              if not any(l.startswith("user-invocable:") for l in fm_lines):
                  new_lines.append("user-invocable: true")
                  user_invocable_inserted = True
  if not metadata_inserted:
      new_lines.append(metadata_line)
      if is_persona and not any(l.startswith("user-invocable:") for l in fm_lines):
          new_lines.append("user-invocable: true")
  \<close>
  The three variables the loop updates are the record \<open>splice\<close>; \<open>splice_step\<close> is
  the body of the loop and \<open>splice_lines\<close> the whole fragment.
\<close>

record splice =
  new_lines :: "string list"
  metadata_inserted :: bool
  user_invocable_inserted :: bool

definition has_user_invocable :: "string list \<Rightarrow> bool" where
  "has_user_invocable fm_lines = list_ex (\<lambda>l. startswith l ''user-invocable:'') fm_lines"

definition splice_step :: "string \<Rightarrow> bool \<Rightarrow> string list \<Rightarrow> splice \<Rightarrow> string \<Rightarrow> splice" where
  "splice_step metadata_line is_persona fm_lines st line =
     (let st1 = st\<lparr>new_lines := new_lines st @ [line]\<rparr>
      in if startswith line ''description:'' \<and> \<not> metadata_inserted st1
         then (let st2 = st1\<lparr>new_lines := new_lines st1 @ [metadata_line],
                              metadata_inserted := True\<rparr>
               in if is_persona \<and> \<not> user_invocable_inserted st2
                  then (if \<not> has_user_invocable fm_lines
                        then st2\<lparr>new_lines := new_lines st2 @ [''user-invocable: true''],
                                 user_invocable_inserted := True\<rparr>
                        else st2)
                  else st2)
         else st1)"

definition splice_lines :: "string \<Rightarrow> bool \<Rightarrow> string list \<Rightarrow> string list" where
  "splice_lines metadata_line is_persona fm_lines =
     (let st = foldl (splice_step metadata_line is_persona fm_lines)
                 \<lparr>new_lines = [], metadata_inserted = False, user_invocable_inserted = False\<rparr>
                 fm_lines
      in if \<not> metadata_inserted st
         then (let ls = new_lines st @ [metadata_line]
               in if is_persona \<and> \<not> has_user_invocable fm_lines
                  then ls @ [''user-invocable: true'']
                  else ls)
         else new_lines st)"

subsection \<open>The per-file orchestrator\<close>

text \<open>
  The test of line 123,
  \<^verbatim>\<open>"\nmetadata:" in content.split("\n---\n")[0] if "\n---\n" in content else False\<close>.
\<close>

definition has_metadata :: "string \<Rightarrow> py_error + bool" where
  "has_metadata content =
     (if str_contains ''\<newline>---\<newline>'' content
      then (case item0 (str_split ''\<newline>---\<newline>'' content) of
              Inl e \<Rightarrow> Inl e
            | Inr first \<Rightarrow> Inr (str_contains ''\<newline>metadata:'' first))
      else Inr False)"

definition name_warning :: "string \<Rightarrow> string \<Rightarrow> string list" where
  "name_warning rel fm_text =
     (case search_name True fm_text of
        None \<Rightarrow> []
      | Some g \<Rightarrow>
         (let name_val = str_strip_chars [CHR 0x27] (str_strip_chars [CHR 0x22] (str_strip g))
          in if \<not> openclaw_name_match name_val
             then [''  WARN '' @ rel @ '': name '' @ [CHR 0x27] @ name_val @ [CHR 0x27]
                     @ '' doesn'' @ [CHR 0x27] @ ''t match OpenClaw regex'']
             else []))"

text \<open>
  \<open>process_skill\<close> takes the path of the file relative to \<^verbatim>\<open>REPO_ROOT\<close> and the world, and
  returns the boolean of the source with the new world. An exception that the source does not
  catch is \<open>Inl\<close>; the \<^verbatim>\<open>except (ValueError, IndexError)\<close> around the parser is the case
  distinction on its result.
\<close>

definition process_skill :: "path \<Rightarrow> bool \<Rightarrow> bool \<Rightarrow> world \<Rightarrow> py_error + (bool \<times> world)" where
  "process_skill skill_md_path dry_run verbose w =
     (let rel_path = path_str skill_md_path;
          skill_dir = parent skill_md_path;
          skill_path = path_str skill_dir;
          skill_name = path_name skill_dir
      in case read_text skill_md_path w of
           Inl e \<Rightarrow> Inl e
         | Inr content \<Rightarrow>
            (case has_metadata content of
               Inl e \<Rightarrow> Inl e
             | Inr True \<Rightarrow>
                 Inr (False,
                      if verbose then print (''  SKIP '' @ rel_path @ '' (already has metadata)'') w
                      else w)
             | Inr False \<Rightarrow>
                (case parse_frontmatter content of
                   Inl e \<Rightarrow>
                     (if e = ValueError \<or> e = IndexError
                      then Inr (False,
                                print (''  ERROR '' @ rel_path @ '': cannot parse frontmatter'') w)
                      else Inl e)
                 | Inr (fm_text, body, raw) \<Rightarrow>
                    (let w1 = w\<lparr>stdout := stdout w @ name_warning rel_path fm_text\<rparr>;
                         fm_lines = str_split ''\<newline>'' fm_text;
                         metadata_line = build_metadata_line skill_path skill_name;
                         is_persona = startswith skill_path ''personas/'';
                         new_lines = splice_lines metadata_line is_persona fm_lines;
                         new_content = ''---\<newline>'' @ str_join ''\<newline>'' new_lines
                                         @ ''\<newline>---\<newline>'' @ body
                     in if dry_run
                        then Inr (True,
                                  if verbose then print (''  DRY-RUN '' @ rel_path) w1 else w1)
                        else (let w2 = write_text skill_md_path new_content w1
                              in Inr (True,
                                      if verbose then print (''  OK '' @ rel_path) w2 else w2))))))"

subsection \<open>The batch driver\<close>

text \<open>\<^verbatim>\<open>str(n)\<close> of a natural number, as the f-string of the summary formats the counts.\<close>

fun str_nat :: "nat \<Rightarrow> string" where
  "str_nat n = (if n < 10 then [char_of (48 + n)] else str_nat (n div 10) @ [char_of (48 + n mod 10)])"

declare str_nat.simps [simp del]

text \<open>
  \<^verbatim>\<open>REPO_ROOT.glob(root + "/**/SKILL.md")\<close>, sorted: the files named \<^verbatim>\<open>SKILL.md\<close> at any depth
  under the directory \<^verbatim>\<open>root\<close>, in the order of their paths, which Python compares component
  by component.
\<close>

definition sorted_glob :: "string \<Rightarrow> world \<Rightarrow> path list" where
  "sorted_glob root w =
     sorted_list_of_set
       (set (filter (\<lambda>p. 2 \<le> length p \<and> hd p = root \<and> last p = ''SKILL.md'') (map fst (files w))))"

text \<open>
  \<^verbatim>\<open>
  modified = 0
  total = 0
  for skill_md in skill_files:
      total += 1
      if process_skill(skill_md, dry_run=dry_run, verbose=verbose):
          modified += 1
  \<close>
\<close>

fun process_all ::
  "bool \<Rightarrow> bool \<Rightarrow> path list \<Rightarrow> nat \<times> nat \<times> world \<Rightarrow> py_error + (nat \<times> nat \<times> world)" where
  "process_all dry_run verbose [] st = Inr st"
| "process_all dry_run verbose (skill_md # rest) (modified, total_n, w) =
     (case process_skill skill_md dry_run verbose w of
        Inl e \<Rightarrow> Inl e
      | Inr (b, w') \<Rightarrow>
          process_all dry_run verbose rest (if b then modified + 1 else modified, total_n + 1, w'))"

text \<open>\<open>main\<close> takes \<^verbatim>\<open>sys.argv\<close> and the world and returns the exit code with the new world.\<close>

definition main :: "string list \<Rightarrow> world \<Rightarrow> py_error + (int \<times> world)" where
  "main argv w =
     (let dry_run = (''--dry-run'' \<in> set argv);
          verbose = (''--verbose'' \<in> set argv);
          w0 = (if dry_run
                then print ([CHR ''D'', CHR ''R'', CHR ''Y'', CHR '' '', CHR ''R'', CHR ''U'', CHR ''N'',
                             CHR '' '', CHR 0xE2, CHR 0x80, CHR 0x94]
                            @ '' no files will be modified\<newline>'') w
                else w);
          skill_files = sorted_glob ''personas'' w0 @ sorted_glob ''agents'' w0
                          @ sorted_glob ''workflows'' w0
      in case process_all dry_run verbose skill_files (0, 0, w0) of
           Inl e \<Rightarrow> Inl e
         | Inr (modified, total_n, w1) \<Rightarrow>
             Inr (0, print (''\<newline>Processed '' @ str_nat total_n @ '' skills, modified ''
                            @ str_nat modified) w1))"

subsection \<open>Notions of the specification\<close>

text \<open>
  The specification describes a document as a line holding exactly \<^verbatim>\<open>---\<close>, the metadata
  lines, a line holding exactly \<^verbatim>\<open>---\<close>, and the body. \<open>file_lines\<close> are the lines of a text;
  \<open>marker_line_after_start\<close> says that some line after the first one is such a marker line.
\<close>

definition file_lines :: "string \<Rightarrow> string list" where
  "file_lines content = str_split ''\<newline>'' content"

definition marker_line_after_start :: "string \<Rightarrow> bool" where
  "marker_line_after_start content = (''---'' \<in> set (tl (file_lines content)))"

text \<open>
  The lines the mutator adds: the metadata line, followed by the flag line when the document's
  category requires the flag and no line of the original block defines it.
\<close>

definition additions :: "string \<Rightarrow> bool \<Rightarrow> string list \<Rightarrow> string list" where
  "additions metadata_line flag_required fm_lines =
     metadata_line #
       (if flag_required \<and> \<not> (\<exists>l\<in>set fm_lines. prefix ''user-invocable:'' l)
        then [''user-invocable: true''] else [])"

text \<open>
  Two abbreviations for the orchestrator: \<open>skipped\<close> is the outcome of the test of line 123,
  and \<open>rewritten\<close> is the text that \<open>process_skill\<close> assembles for a file that parses (the
  file's own text when it does not).
\<close>

definition skipped :: "string \<Rightarrow> bool" where
  "skipped content = (has_metadata content = Inr True)"

definition rewritten :: "path \<Rightarrow> string \<Rightarrow> string" where
  "rewritten skill_md_path content =
     (case parse_frontmatter content of
        Inl e \<Rightarrow> content
      | Inr (fm_text, body, raw) \<Rightarrow>
          ''---\<newline>''
          @ str_join ''\<newline>''
              (splice_lines
                 (build_metadata_line (path_str (parent skill_md_path))
                    (path_name (parent skill_md_path)))
                 (startswith (path_str (parent skill_md_path)) ''personas/'')
                 (str_split ''\<newline>'' fm_text))
          @ ''\<newline>---\<newline>'' @ body)"

text \<open>
  \<open>would_modify\<close> says that the orchestrator gets as far as assembling a new text for a file
  with this content; \<open>content_of\<close> is the text of a file, and \<open>skill_files\<close> the list of files
  that \<open>main\<close> walks through.
\<close>

definition would_modify :: "string \<Rightarrow> bool" where
  "would_modify content =
     (\<not> skipped content \<and> (case parse_frontmatter content of Inl e \<Rightarrow> False | Inr r \<Rightarrow> True))"

definition content_of :: "world \<Rightarrow> path \<Rightarrow> string" where
  "content_of w p = (case map_of (files w) p of None \<Rightarrow> [] | Some c \<Rightarrow> c)"

definition skill_files :: "world \<Rightarrow> path list" where
  "skill_files w = sorted_glob ''personas'' w @ sorted_glob ''agents'' w @ sorted_glob ''workflows'' w"

definition summary_line :: "nat \<Rightarrow> nat \<Rightarrow> string" where
  "summary_line total_n modified =
     ''\<newline>Processed '' @ str_nat total_n @ '' skills, modified '' @ str_nat modified"

text \<open>
  The document of the specification's scenario, and the document the scenario expects for a
  decorative value \<open>x\<close>: the metadata line and the flag line follow the \<^verbatim>\<open>description:\<close> line.
\<close>

definition scenario_doc :: string where
  "scenario_doc = ''---\<newline>name: my-skill\<newline>description: does a thing\<newline>---\<newline>Body text.\<newline>''"

definition scenario_result :: "string \<Rightarrow> string" where
  \<open>scenario_result x =
     ''---\<newline>name: my-skill\<newline>description: does a thing\<newline>''
     @ ''metadata: {"openclaw": {"emoji": "'' @ x @ ''", "os": ["darwin", "linux", "win32"]}}''
     @ ''\<newline>user-invocable: true\<newline>---\<newline>Body text.\<newline>''\<close>

text \<open>
  For the claims about repeated runs: the lines of the frontmatter block of a text that parses,
  whether a path is in the persona category (the test of line 148), the number of lines of a
  file that are the flag line and the number of lines that define the flag field, and the
  world after \<open>n\<close> write-mode runs of the orchestrator on one file.
\<close>

definition frontmatter_lines :: "string \<Rightarrow> string list" where
  "frontmatter_lines content =
     (case parse_frontmatter content of
        Inl e \<Rightarrow> []
      | Inr (fm_text, body, raw) \<Rightarrow> str_split ''\<newline>'' fm_text)"

definition persona_path :: "path \<Rightarrow> bool" where
  "persona_path skill_md_path = startswith (path_str (parent skill_md_path)) ''personas/''"

definition flag_lines :: "string \<Rightarrow> nat" where
  "flag_lines content = length (filter (\<lambda>l. l = ''user-invocable: true'') (file_lines content))"

definition field_lines :: "string \<Rightarrow> nat" where
  "field_lines content = length (filter (\<lambda>l. prefix ''user-invocable:'' l) (file_lines content))"

fun run_times :: "nat \<Rightarrow> path \<Rightarrow> bool \<Rightarrow> world \<Rightarrow> py_error + world" where
  "run_times 0 p verbose w = Inr w"
| "run_times (Suc n) p verbose w =
     (case process_skill p False verbose w of
        Inl e \<Rightarrow> Inl e
      | Inr (b, w') \<Rightarrow> run_times n p verbose w')"

text \<open>The block that the orchestrator builds for a file at a path, from the lines of the old
  block, and the lines it adds to them.\<close>

definition spliced :: "path \<Rightarrow> string list \<Rightarrow> string list" where
  "spliced p fm_lines =
     splice_lines (build_metadata_line (path_str (parent p)) (path_name (parent p)))
       (persona_path p) fm_lines"

definition added :: "path \<Rightarrow> string list \<Rightarrow> string list" where
  "added p fm_lines =
     additions (build_metadata_line (path_str (parent p)) (path_name (parent p)))
       (persona_path p) fm_lines"

text \<open>The text of a file after one write-mode run of the orchestrator on it.\<close>

definition rerun :: "path \<Rightarrow> string \<Rightarrow> string" where
  "rerun p content = (if would_modify content then rewritten p content else content)"

text \<open>The number of flag lines that one run adds to a file at a path.\<close>

definition gain :: "path \<Rightarrow> string \<Rightarrow> nat" where
  "gain p content =
     (if persona_path p \<and> would_modify content
         \<and> \<not> (\<exists>l\<in>set (frontmatter_lines content). prefix ''user-invocable:'' l)
      then 1 else 0)"

section \<open>Properties\<close>

subsection \<open>Substring search\<close>

lemma find_sub_Some_prefix:
  "find_sub sub s = Some i \<Longrightarrow> i \<le> length s \<and> prefix sub (drop i s)"
proof (induction s arbitrary: i)
  case Nil
  then show ?case by (simp split: if_splits)
next
  case (Cons c cs)
  show ?case
  proof (cases "prefix sub (c # cs)")
    case True
    with Cons.prems show ?thesis by simp
  next
    case False
    with Cons.prems obtain j where j: "find_sub sub cs = Some j" and i: "i = Suc j"
      by auto
    from Cons.IH [OF j] i show ?thesis by simp
  qed
qed

lemma find_sub_Some_first:
  "find_sub sub s = Some i \<Longrightarrow> j < i \<Longrightarrow> \<not> prefix sub (drop j s)"
proof (induction s arbitrary: i j)
  case Nil
  then show ?case by (simp split: if_splits)
next
  case (Cons c cs)
  show ?case
  proof (cases "prefix sub (c # cs)")
    case True
    with Cons.prems show ?thesis by simp
  next
    case False
    with Cons.prems obtain k where k: "find_sub sub cs = Some k" and i: "i = Suc k"
      by auto
    show ?thesis
    proof (cases j)
      case 0
      with False show ?thesis by simp
    next
      case (Suc j')
      with Cons.prems i have "j' < k" by simp
      from Cons.IH [OF k this] Suc show ?thesis by simp
    qed
  qed
qed

lemma find_sub_None_iff:
  "find_sub sub s = None \<longleftrightarrow> (\<forall>j\<le>length s. \<not> prefix sub (drop j s))"
proof (induction s)
  case Nil
  then show ?case by auto
next
  case (Cons c cs)
  show ?case
  proof (cases "prefix sub (c # cs)")
    case True
    then show ?thesis by auto
  next
    case False
    have "(\<forall>j\<le>length (c # cs). \<not> prefix sub (drop j (c # cs))) \<longleftrightarrow>
          (\<forall>j\<le>length cs. \<not> prefix sub (drop j cs))"
    proof
      assume a: "\<forall>j\<le>length (c # cs). \<not> prefix sub (drop j (c # cs))"
      show "\<forall>j\<le>length cs. \<not> prefix sub (drop j cs)"
      proof (intro allI impI)
        fix j assume "j \<le> length cs"
        with a have "\<not> prefix sub (drop (Suc j) (c # cs))" by (metis Suc_le_mono length_Cons)
        then show "\<not> prefix sub (drop j cs)" by simp
      qed
    next
      assume a: "\<forall>j\<le>length cs. \<not> prefix sub (drop j cs)"
      show "\<forall>j\<le>length (c # cs). \<not> prefix sub (drop j (c # cs))"
      proof (intro allI impI)
        fix j assume j: "j \<le> length (c # cs)"
        show "\<not> prefix sub (drop j (c # cs))"
        proof (cases j)
          case 0
          with False show ?thesis by simp
        next
          case (Suc j')
          with j a show ?thesis by simp
        qed
      qed
    qed
    with False Cons.IH show ?thesis by simp
  qed
qed

lemma find_sub_SomeI:
  assumes "i \<le> length s" and "prefix sub (drop i s)" and "\<forall>j<i. \<not> prefix sub (drop j s)"
  shows "find_sub sub s = Some i"
proof (cases "find_sub sub s")
  case None
  with assms show ?thesis by (auto simp: find_sub_None_iff)
next
  case (Some k)
  have "\<not> k < i" using find_sub_Some_prefix [OF Some] assms(3) by blast
  moreover have "\<not> i < k" using find_sub_Some_first [OF Some] assms(2) by blast
  ultimately show ?thesis using Some by simp
qed

lemma find_sub_Some_split:
  "find_sub sub s = Some i \<Longrightarrow> s = take i s @ sub @ drop (i + length sub) s"
proof -
  assume "find_sub sub s = Some i"
  then have "prefix sub (drop i s)" by (simp add: find_sub_Some_prefix)
  then obtain r where r: "drop i s = sub @ r" by (auto simp: prefix_def)
  then have "drop (length sub) (drop i s) = r" by simp
  then have "drop (i + length sub) s = r" by (simp add: add.commute)
  with r have "drop i s = sub @ drop (i + length sub) s" by simp
  then show ?thesis by (metis append_take_drop_id)
qed

lemma find_sub_None_no_split:
  "find_sub sub s = None \<longleftrightarrow> \<not> (\<exists>a b. s = a @ sub @ b)"
proof
  assume n: "find_sub sub s = None"
  show "\<not> (\<exists>a b. s = a @ sub @ b)"
  proof
    assume "\<exists>a b. s = a @ sub @ b"
    then obtain a b where s: "s = a @ sub @ b" by blast
    then have "length a \<le> length s" and "prefix sub (drop (length a) s)" by simp_all
    with n show False by (simp add: find_sub_None_iff)
  qed
next
  assume ns: "\<not> (\<exists>a b. s = a @ sub @ b)"
  show "find_sub sub s = None"
  proof (cases "find_sub sub s")
    case None
    then show ?thesis .
  next
    case (Some i)
    from find_sub_Some_split [OF this] ns show ?thesis by blast
  qed
qed

subsection \<open>The frontmatter parser\<close>

lemma length_start_marker: "length start_marker = 4"
  by (simp add: start_marker_def)

lemma length_end_marker: "length end_marker = 5"
  by (simp add: end_marker_def)

lemma parse_frontmatter_markers:
  "parse_frontmatter content =
     (if \<not> prefix start_marker content then Inl ValueError
      else (case find_sub end_marker (drop 4 content) of
              None \<Rightarrow> Inl ValueError
            | Some i \<Rightarrow> Inr (take i (drop 4 content), drop (i + 5) (drop 4 content),
                             take (4 + i + 5) content)))"
proof (cases "prefix start_marker content")
  case False
  then show ?thesis by (simp add: parse_frontmatter_def startswith_def start_marker_def)
next
  case True
  then have len: "4 \<le> length content"
    using prefix_length_le [OF True] by (simp add: length_start_marker)
  have dt: "drop 4 (take (4 + i) content) = take i (drop 4 content)" for i
    by (simp add: drop_take)
  have dd: "drop (4 + i + 5) content = drop (i + 5) (drop 4 content)" for i
    by (simp add: add.commute add.left_commute)
  from True have "startswith content ''---\<newline>''"
    by (simp add: startswith_def start_marker_def)
  then show ?thesis
    using True len unfolding parse_frontmatter_def str_index_def Let_def end_marker_def [symmetric]
    by (simp add: dt dd split: option.splits)
qed


lemma parse_frontmatter_Inl:
  "parse_frontmatter content = Inl e \<longleftrightarrow>
     e = ValueError \<and> (\<not> prefix start_marker content \<or> find_sub end_marker (drop 4 content) = None)"
  by (auto simp: parse_frontmatter_markers split: option.splits)

lemma parse_frontmatter_Inr:
  "parse_frontmatter content = Inr r \<longleftrightarrow>
     (\<exists>i. prefix start_marker content \<and> find_sub end_marker (drop 4 content) = Some i \<and>
          r = (take i (drop 4 content), drop (i + 5) (drop 4 content), take (4 + i + 5) content))"
  by (auto simp: parse_frontmatter_markers split: option.splits)

lemma framed_iff:
  "(\<exists>fm body. content = start_marker @ fm @ end_marker @ body) \<longleftrightarrow>
     prefix start_marker content \<and> find_sub end_marker (drop 4 content) \<noteq> None"
proof
  assume "\<exists>fm body. content = start_marker @ fm @ end_marker @ body"
  then obtain fm body where c: "content = start_marker @ fm @ end_marker @ body" by blast
  then have "drop 4 content = fm @ end_marker @ body" by (simp add: length_start_marker)
  then have "find_sub end_marker (drop 4 content) \<noteq> None"
    unfolding find_sub_None_no_split by blast
  moreover from c have "prefix start_marker content" by simp
  ultimately show "prefix start_marker content \<and> find_sub end_marker (drop 4 content) \<noteq> None"
    by simp
next
  assume a: "prefix start_marker content \<and> find_sub end_marker (drop 4 content) \<noteq> None"
  then obtain a b where "drop 4 content = a @ end_marker @ b"
    unfolding find_sub_None_no_split by blast
  moreover from a have "content = start_marker @ drop 4 content"
    by (auto simp: prefix_def length_start_marker)
  ultimately have "content = start_marker @ a @ end_marker @ b" by simp
  then show "\<exists>fm body. content = start_marker @ fm @ end_marker @ body" by blast
qed

lemma parse_frontmatter_framed:
  assumes "parse_frontmatter content = Inr (fm, body, raw)"
  shows "content = start_marker @ fm @ end_marker @ body"
proof -
  from assms obtain i where p: "prefix start_marker content"
    and f: "find_sub end_marker (drop 4 content) = Some i"
    and fm: "fm = take i (drop 4 content)"
    and body: "body = drop (i + 5) (drop 4 content)"
    by (auto simp: parse_frontmatter_Inr)
  from p have c: "content = start_marker @ drop 4 content"
    by (auto simp: prefix_def length_start_marker)
  from find_sub_Some_split [OF f]
  have "drop 4 content = fm @ end_marker @ body"
    using fm body by (simp add: length_end_marker)
  with c show ?thesis by simp
qed

text \<open>
  Claim C3. When \<open>parse_frontmatter\<close> succeeds, the start marker, the returned metadata block,
  the end marker and the returned body, concatenated, are the original text, and the raw
  leading slice is the original text up to and including the terminating marker line.
\<close>

theorem parse_frontmatter_roundtrip:
  assumes "parse_frontmatter content = Inr (fm_text, body, raw)"
  shows "start_marker @ fm_text @ end_marker @ body = content
       \<and> raw = start_marker @ fm_text @ end_marker
       \<and> raw @ body = content"
proof -
  from assms obtain i where f: "find_sub end_marker (drop 4 content) = Some i"
    and fm: "fm_text = take i (drop 4 content)"
    and raw: "raw = take (4 + i + 5) content"
    by (auto simp: parse_frontmatter_Inr)
  have whole: "content = (start_marker @ fm_text @ end_marker) @ body"
    using parse_frontmatter_framed [OF assms] by simp
  have i: "length fm_text = i"
    using fm find_sub_Some_prefix [OF f] by simp
  then have l: "4 + i + 5 = length (start_marker @ fm_text @ end_marker)"
    by (simp add: length_start_marker length_end_marker)
  have "take (4 + i + 5) ((start_marker @ fm_text @ end_marker) @ body)
      = start_marker @ fm_text @ end_marker"
    unfolding l by simp
  with raw whole have raw': "raw = start_marker @ fm_text @ end_marker" by simp
  from whole raw' show ?thesis by simp
qed

text \<open>The round trip of claim C3 on a small document.\<close>

theorem parse_frontmatter_roundtrip_witness:
  "parse_frontmatter ''---\<newline>name: a\<newline>---\<newline>Body''
     = Inr (''name: a'', ''Body'', ''---\<newline>name: a\<newline>---\<newline>'')
   \<and> start_marker @ ''name: a'' @ end_marker @ ''Body'' = ''---\<newline>name: a\<newline>---\<newline>Body''
   \<and> ''---\<newline>name: a\<newline>---\<newline>'' = start_marker @ ''name: a'' @ end_marker"
proof -
  have p: "parse_frontmatter ''---\<newline>name: a\<newline>---\<newline>Body''
     = Inr (''name: a'', ''Body'', ''---\<newline>name: a\<newline>---\<newline>'')"
    by (simp add: parse_frontmatter_def startswith_def str_index_def)
  from parse_frontmatter_roundtrip [OF p] p show ?thesis
    by (simp add: start_marker_def end_marker_def)
qed

text \<open>
  Claim C6, as amended. \<open>parse_frontmatter\<close> raises \<^verbatim>\<open>ValueError\<close> exactly when the text does not
  begin with the start marker or is not of the form start marker, block, the five characters
  of the end marker, body; on every other text it succeeds, and it raises nothing else.
\<close>

theorem parse_frontmatter_raises_iff:
  "(parse_frontmatter content = Inl ValueError \<longleftrightarrow>
      \<not> startswith content start_marker
      \<or> \<not> (\<exists>fm body. content = start_marker @ fm @ end_marker @ body))
   \<and> ((\<exists>r. parse_frontmatter content = Inr r) \<longleftrightarrow>
      (\<exists>fm body. content = start_marker @ fm @ end_marker @ body))
   \<and> parse_frontmatter content \<noteq> Inl IndexError
   \<and> parse_frontmatter content \<noteq> Inl FileNotFoundError"
proof -
  have inl: "parse_frontmatter content = Inl ValueError \<longleftrightarrow>
      \<not> prefix start_marker content \<or> find_sub end_marker (drop 4 content) = None"
    by (simp add: parse_frontmatter_Inl)
  have inr: "(\<exists>r. parse_frontmatter content = Inr r) \<longleftrightarrow>
      prefix start_marker content \<and> find_sub end_marker (drop 4 content) \<noteq> None"
    unfolding parse_frontmatter_Inr by auto
  have 1: "parse_frontmatter content = Inl ValueError \<longleftrightarrow>
      \<not> startswith content start_marker
      \<or> \<not> (\<exists>fm body. content = start_marker @ fm @ end_marker @ body)"
    unfolding inl framed_iff startswith_def by auto
  have 2: "(\<exists>r. parse_frontmatter content = Inr r) \<longleftrightarrow>
      (\<exists>fm body. content = start_marker @ fm @ end_marker @ body)"
    unfolding inr framed_iff by auto
  have 3: "parse_frontmatter content \<noteq> Inl IndexError"
    by (simp add: parse_frontmatter_Inl)
  have 4: "parse_frontmatter content \<noteq> Inl FileNotFoundError"
    by (simp add: parse_frontmatter_Inl)
  from 1 2 3 4 show ?thesis by blast
qed

text \<open>Claim C6, as amended, on a document that parses and on one without the start marker.\<close>

theorem parse_frontmatter_raises_iff_witness:
  "(\<exists>r. parse_frontmatter ''---\<newline>name: a\<newline>---\<newline>Body'' = Inr r)
   \<and> parse_frontmatter ''name: a\<newline>---\<newline>Body'' = Inl ValueError"
proof -
  have "''---\<newline>name: a\<newline>---\<newline>Body'' = start_marker @ ''name: a'' @ end_marker @ ''Body''"
    by (simp add: start_marker_def end_marker_def)
  then have 1: "\<exists>r. parse_frontmatter ''---\<newline>name: a\<newline>---\<newline>Body'' = Inr r"
    using parse_frontmatter_raises_iff [of "''---\<newline>name: a\<newline>---\<newline>Body''"] by blast
  have "\<not> startswith ''name: a\<newline>---\<newline>Body'' start_marker"
    by (simp add: startswith_def start_marker_def)
  then have 2: "parse_frontmatter ''name: a\<newline>---\<newline>Body'' = Inl ValueError"
    using parse_frontmatter_raises_iff [of "''name: a\<newline>---\<newline>Body''"] by blast
  from 1 2 show ?thesis by blast
qed

text \<open>
  Claim C6 as it is stated fails: a text that begins with the start marker and has a marker
  line after it, but no newline after that line, makes the parser raise.
\<close>

theorem parse_frontmatter_raises_iff_counterexample:
  "\<not> (\<forall>content. parse_frontmatter content = Inl ValueError \<longleftrightarrow>
         \<not> startswith content start_marker \<or> \<not> marker_line_after_start content)"
proof
  assume a: "\<forall>content. parse_frontmatter content = Inl ValueError \<longleftrightarrow>
         \<not> startswith content start_marker \<or> \<not> marker_line_after_start content"
  have 1: "parse_frontmatter ''---\<newline>key: v\<newline>---'' = Inl ValueError"
    by (simp add: parse_frontmatter_def startswith_def str_index_def)
  have 2: "startswith ''---\<newline>key: v\<newline>---'' start_marker"
    by (simp add: startswith_def start_marker_def)
  have 3: "marker_line_after_start ''---\<newline>key: v\<newline>---''"
    by (simp add: marker_line_after_start_def file_lines_def str_split.simps)
  from a 1 2 3 show False by blast
qed

text \<open>
  Claim C10. The parser raises on a document with an empty metadata block and on a document
  whose closing marker line ends the text without a newline, although both have a marker
  line after the start.
\<close>

theorem parse_frontmatter_edge_cases:
  "parse_frontmatter ''---\<newline>---\<newline>body'' = Inl ValueError
   \<and> marker_line_after_start ''---\<newline>---\<newline>body''
   \<and> parse_frontmatter ''---\<newline>key: v\<newline>---'' = Inl ValueError
   \<and> marker_line_after_start ''---\<newline>key: v\<newline>---''"
proof -
  have 1: "parse_frontmatter ''---\<newline>---\<newline>body'' = Inl ValueError"
    by (simp add: parse_frontmatter_def startswith_def str_index_def)
  have 2: "marker_line_after_start ''---\<newline>---\<newline>body''"
    by (simp add: marker_line_after_start_def file_lines_def str_split.simps)
  have 3: "parse_frontmatter ''---\<newline>key: v\<newline>---'' = Inl ValueError"
    by (simp add: parse_frontmatter_def startswith_def str_index_def)
  have 4: "marker_line_after_start ''---\<newline>key: v\<newline>---''"
    by (simp add: marker_line_after_start_def file_lines_def str_split.simps)
  from 1 2 3 4 show ?thesis by blast
qed

subsection \<open>The decorative-value lookup\<close>

lemma first_prefix_None:
  "first_prefix p xs = None \<longleftrightarrow> (\<forall>y\<in>set xs. \<not> prefix (fst y) p)"
proof (induction xs)
  case Nil
  then show ?case by simp
next
  case (Cons x xs)
  obtain k0 v0 where x: "x = (k0, v0)" by (cases x)
  show ?case using Cons.IH by (simp add: x startswith_def)
qed

lemma first_prefix_Cons:
  "first_prefix p (x # xs) = (if prefix (fst x) p then Some (snd x) else first_prefix p xs)"
  by (cases x) (simp add: startswith_def)

lemma first_prefix_sorted:
  fixes f :: "string \<times> string \<Rightarrow> int"
  assumes "sorted (map f xs)" and "first_prefix p xs = Some v"
  shows "\<exists>k. (k, v) \<in> set xs \<and> prefix k p \<and> (\<forall>y\<in>set xs. prefix (fst y) p \<longrightarrow> f (k, v) \<le> f y)"
  using assms
proof (induction xs)
  case Nil
  then show ?case by simp
next
  case (Cons x xs)
  show ?case
  proof (cases "prefix (fst x) p")
    case True
    with Cons.prems(2) have v: "v = snd x" by (simp add: first_prefix_Cons)
    from Cons.prems(1) have le: "\<forall>y\<in>set xs. f x \<le> f y" by simp
    have x: "x = (fst x, v)" using v by simp
    have "(fst x, v) \<in> set (x # xs)" using x by (metis list.set_intros(1))
    moreover have "\<forall>y\<in>set (x # xs). prefix (fst y) p \<longrightarrow> f (fst x, v) \<le> f y"
      using le x by (metis order_refl set_ConsD)
    ultimately show ?thesis using True by blast
  next
    case False
    with Cons.prems(2) have "first_prefix p xs = Some v" by (simp add: first_prefix_Cons)
    moreover from Cons.prems(1) have "sorted (map f xs)" by simp
    ultimately obtain k where k: "(k, v) \<in> set xs" "prefix k p"
      "\<forall>y\<in>set xs. prefix (fst y) p \<longrightarrow> f (k, v) \<le> f y"
      using Cons.IH by blast
    have "\<forall>y\<in>set (x # xs). prefix (fst y) p \<longrightarrow> f (k, v) \<le> f y"
      using k(3) False by (metis set_ConsD)
    moreover have "(k, v) \<in> set (x # xs)" using k(1) by simp
    ultimately show ?thesis using k(2) by blast
  qed
qed

lemma first_prefix_sorted_longest:
  assumes "first_prefix p (sort_key (\<lambda>x. - int (length (fst x))) em) = Some v"
  shows "\<exists>k. (k, v) \<in> set em \<and> prefix k p
           \<and> (\<forall>y\<in>set em. prefix (fst y) p \<longrightarrow> length (fst y) \<le> length k)"
proof -
  let ?f = "\<lambda>x :: string \<times> string. - int (length (fst x))"
  let ?xs = "sort_key ?f em"
  have "sorted (map ?f ?xs)" by (rule sorted_sort_key)
  from first_prefix_sorted [OF this assms] obtain k
    where k: "(k, v) \<in> set ?xs" "prefix k p"
      and le: "\<forall>y\<in>set ?xs. prefix (fst y) p \<longrightarrow> ?f (k, v) \<le> ?f y"
    by blast
  have set: "set ?xs = set em" by (rule set_sort)
  have "\<forall>y\<in>set em. prefix (fst y) p \<longrightarrow> length (fst y) \<le> length k"
  proof (intro ballI impI)
    fix y assume "y \<in> set em" and "prefix (fst y) p"
    with le set have "?f (k, v) \<le> ?f y" by blast
    then show "length (fst y) \<le> length k" by simp
  qed
  with k set show ?thesis by blast
qed

lemma prefix_same_length_eq:
  "prefix a p \<Longrightarrow> prefix b p \<Longrightarrow> length a = length b \<Longrightarrow> a = b"
  by (auto simp: prefix_def append_eq_append_conv)

lemma distinct_EMOJI_MAP: "distinct (map fst EMOJI_MAP)"
  by code_simp

lemma distinct_API_EMOJI_OVERRIDES: "distinct (map fst API_EMOJI_OVERRIDES)"
  by (simp add: API_EMOJI_OVERRIDES_def)

text \<open>
  Claim C4. \<open>get_emoji\<close> is the lookup in the two tables of the source, whose keys are distinct.
  For any two tables: a leaf name that is a key of the override table yields its value; otherwise
  the value of the longest key of the prefix table that is a prefix of the path is returned;
  and when the leaf name is no override key and no key is a prefix of the path, the fallback
  is returned.
\<close>

theorem get_emoji_three_steps:
  "get_emoji skill_path skill_name = get_emoji_with API_EMOJI_OVERRIDES EMOJI_MAP skill_path skill_name
   \<and> distinct (map fst API_EMOJI_OVERRIDES) \<and> distinct (map fst EMOJI_MAP)
   \<and> (distinct (map fst overrides) \<and> (skill_name, v) \<in> set overrides
        \<longrightarrow> get_emoji_with overrides emoji_map skill_path skill_name = v)
   \<and> (skill_name \<notin> fst ` set overrides \<and> distinct (map fst emoji_map)
        \<and> (k, v) \<in> set emoji_map \<and> prefix k skill_path
        \<and> (\<forall>y\<in>set emoji_map. prefix (fst y) skill_path \<longrightarrow> length (fst y) \<le> length k)
        \<longrightarrow> get_emoji_with overrides emoji_map skill_path skill_name = v)
   \<and> (skill_name \<notin> fst ` set overrides
        \<and> (\<forall>y\<in>set emoji_map. \<not> prefix (fst y) skill_path)
        \<longrightarrow> get_emoji_with overrides emoji_map skill_path skill_name = fallback_emoji)"
proof -
  let ?sorted = "sort_key (\<lambda>x. - int (length (fst x))) emoji_map"
  have none: "map_of overrides skill_name = None" if "skill_name \<notin> fst ` set overrides"
    using that by (simp add: map_of_eq_None_iff)
  have step1: "get_emoji_with overrides emoji_map skill_path skill_name = v"
    if "distinct (map fst overrides)" "(skill_name, v) \<in> set overrides"
    using that by (simp add: get_emoji_with_def)
  have step2: "get_emoji_with overrides emoji_map skill_path skill_name = v"
    if n: "skill_name \<notin> fst ` set overrides" and d: "distinct (map fst emoji_map)"
      and m: "(k, v) \<in> set emoji_map" and pk: "prefix k skill_path"
      and mx: "\<forall>y\<in>set emoji_map. prefix (fst y) skill_path \<longrightarrow> length (fst y) \<le> length k"
  proof -
    have "first_prefix skill_path ?sorted \<noteq> None"
      using m pk unfolding first_prefix_None by (metis fst_conv set_sort)
    then obtain u where u: "first_prefix skill_path ?sorted = Some u" by blast
    from first_prefix_sorted_longest [OF u] obtain j
      where j: "(j, u) \<in> set emoji_map" "prefix j skill_path"
        and jmx: "\<forall>y\<in>set emoji_map. prefix (fst y) skill_path \<longrightarrow> length (fst y) \<le> length j"
      by blast
    from mx j have "length j \<le> length k" by (metis fst_conv)
    moreover from jmx m pk have "length k \<le> length j" by (metis fst_conv)
    ultimately have "j = k" using j(2) pk by (simp add: prefix_same_length_eq)
    with j(1) m d have "u = v" by (meson eq_key_imp_eq_value)
    with u none [OF n] show ?thesis by (simp add: get_emoji_with_def)
  qed
  have step3: "get_emoji_with overrides emoji_map skill_path skill_name = fallback_emoji"
    if n: "skill_name \<notin> fst ` set overrides"
      and no: "\<forall>y\<in>set emoji_map. \<not> prefix (fst y) skill_path"
  proof -
    have "first_prefix skill_path ?sorted = None"
      using no by (simp add: first_prefix_None)
    with none [OF n] show ?thesis by (simp add: get_emoji_with_def)
  qed
  show ?thesis
    using step1 step2 step3 distinct_EMOJI_MAP distinct_API_EMOJI_OVERRIDES
    by (simp add: get_emoji_def)
qed

text \<open>
  Claim C4 on the tables of the specification's example: an override wins over a matching
  prefix, \<^verbatim>\<open>a/b/c\<close> wins over \<^verbatim>\<open>a/b\<close> for the path \<^verbatim>\<open>a/b/c/d\<close>, and a path without a matching
  prefix gets the fallback.
\<close>

theorem get_emoji_three_steps_witness:
  "get_emoji_with [(''d'', ''Z'')] [(''a/b'', ''X''), (''a/b/c'', ''Y'')] ''a/b/c/d'' ''d'' = ''Z''
   \<and> get_emoji_with [] [(''a/b'', ''X''), (''a/b/c'', ''Y'')] ''a/b/c/d'' ''d'' = ''Y''
   \<and> get_emoji_with [] [(''a/b'', ''X''), (''a/b/c'', ''Y'')] ''a/c'' ''c'' = fallback_emoji"
proof -
  let ?em = "[(''a/b'', ''X''), (''a/b/c'', ''Y'')]"
  have 1: "get_emoji_with [(''d'', ''Z'')] ?em ''a/b/c/d'' ''d'' = ''Z''"
    using get_emoji_three_steps [where skill_path="''a/b/c/d''" and skill_name="''d''"
        and overrides="[(''d'', ''Z'')]" and v="''Z''" and emoji_map="?em"]
    by simp
  have 2: "get_emoji_with [] ?em ''a/b/c/d'' ''d'' = ''Y''"
    using get_emoji_three_steps [where skill_path="''a/b/c/d''" and skill_name="''d''"
        and overrides="[]" and v="''Y''" and emoji_map="?em" and k="''a/b/c''"]
    by simp
  have 3: "get_emoji_with [] ?em ''a/c'' ''c'' = fallback_emoji"
    using get_emoji_three_steps [where skill_path="''a/c''" and skill_name="''c''"
        and overrides="[]" and emoji_map="?em"]
    by simp
  from 1 2 3 show ?thesis by simp
qed

subsection \<open>The mutator\<close>

lemma has_user_invocable_iff:
  "has_user_invocable fm_lines \<longleftrightarrow> (\<exists>l\<in>set fm_lines. prefix ''user-invocable:'' l)"
  by (simp add: has_user_invocable_def list_ex_iff startswith_def)

lemma foldl_splice_step_inserted:
  "metadata_inserted st \<Longrightarrow>
     foldl (splice_step ml ip fm) st ls = st\<lparr>new_lines := new_lines st @ ls\<rparr>"
proof (induction ls arbitrary: st)
  case Nil
  then show ?case by simp
next
  case (Cons l ls)
  have step: "splice_step ml ip fm st l = st\<lparr>new_lines := new_lines st @ [l]\<rparr>"
    using Cons.prems by (simp add: splice_step_def Let_def)
  have "metadata_inserted (st\<lparr>new_lines := new_lines st @ [l]\<rparr>)"
    using Cons.prems by simp
  from Cons.IH [OF this] step show ?case by simp
qed

lemma foldl_splice_step_no_anchor:
  "\<forall>x\<in>set ls. \<not> startswith x ''description:'' \<Longrightarrow>
     foldl (splice_step ml ip fm) st ls = st\<lparr>new_lines := new_lines st @ ls\<rparr>"
proof (induction ls arbitrary: st)
  case Nil
  then show ?case by simp
next
  case (Cons l ls)
  have step: "splice_step ml ip fm st l = st\<lparr>new_lines := new_lines st @ [l]\<rparr>"
    using Cons.prems by (simp add: splice_step_def Let_def)
  from Cons.prems have "\<forall>x\<in>set ls. \<not> startswith x ''description:''" by simp
  from Cons.IH [OF this] step show ?case by simp
qed

lemma splice_step_anchor:
  assumes "startswith l ''description:''" and "\<not> metadata_inserted st"
    and "\<not> user_invocable_inserted st"
  shows "new_lines (splice_step ml ip fm st l) = new_lines st @ l # additions ml ip fm"
    and "metadata_inserted (splice_step ml ip fm st l)"
  using assms
  by (simp_all add: splice_step_def Let_def additions_def has_user_invocable_iff)

lemma splice_lines_anchor:
  assumes fm: "fm_lines = pre @ l # post" and l: "startswith l ''description:''"
    and pre: "\<forall>x\<in>set pre. \<not> startswith x ''description:''"
  shows "splice_lines ml ip fm_lines = pre @ l # additions ml ip fm_lines @ post"
proof -
  let ?step = "splice_step ml ip fm_lines"
  let ?init = "\<lparr>new_lines = [], metadata_inserted = False, user_invocable_inserted = False\<rparr>"
  let ?st1 = "foldl ?step ?init pre"
  let ?st2 = "?step ?st1 l"
  have st1: "?st1 = ?init\<lparr>new_lines := pre\<rparr>"
    using foldl_splice_step_no_anchor [OF pre, of ml ip fm_lines ?init] by simp
  have nl2: "new_lines ?st2 = pre @ l # additions ml ip fm_lines"
    and mi2: "metadata_inserted ?st2"
    using splice_step_anchor [OF l, of ?st1 ml ip fm_lines] st1 by simp_all
  have "foldl ?step ?init fm_lines = foldl ?step ?st2 post"
    unfolding fm by simp
  also have "\<dots> = ?st2\<lparr>new_lines := new_lines ?st2 @ post\<rparr>"
    by (rule foldl_splice_step_inserted [OF mi2])
  finally have f: "foldl ?step ?init fm_lines = ?st2\<lparr>new_lines := new_lines ?st2 @ post\<rparr>" .
  have "splice_lines ml ip fm_lines = new_lines ?st2 @ post"
    unfolding splice_lines_def Let_def f using mi2 by simp
  with nl2 show ?thesis by simp
qed

lemma splice_lines_no_anchor:
  assumes no: "\<forall>x\<in>set fm_lines. \<not> startswith x ''description:''"
  shows "splice_lines ml ip fm_lines = fm_lines @ additions ml ip fm_lines"
proof -
  let ?step = "splice_step ml ip fm_lines"
  let ?init = "\<lparr>new_lines = [], metadata_inserted = False, user_invocable_inserted = False\<rparr>"
  have f: "foldl ?step ?init fm_lines = ?init\<lparr>new_lines := fm_lines\<rparr>"
    using foldl_splice_step_no_anchor [OF no, of ml ip fm_lines ?init] by simp
  show ?thesis
    unfolding splice_lines_def Let_def f
    by (simp add: additions_def has_user_invocable_iff)
qed

lemma splice_lines_insertion:
  "\<exists>pre post. fm_lines = pre @ post
     \<and> splice_lines ml ip fm_lines = pre @ additions ml ip fm_lines @ post"
proof (cases "\<exists>x\<in>set fm_lines. startswith x ''description:''")
  case True
  then obtain pre l post where fm: "fm_lines = pre @ l # post"
    and l: "startswith l ''description:''"
    and pre: "\<forall>x\<in>set pre. \<not> startswith x ''description:''"
    using split_list_first_prop [of fm_lines "\<lambda>x. startswith x ''description:''"] by blast
  from splice_lines_anchor [OF fm l pre, of ml ip] fm
  have "fm_lines = (pre @ [l]) @ post
     \<and> splice_lines ml ip fm_lines = (pre @ [l]) @ additions ml ip fm_lines @ post"
    by simp
  then show ?thesis by blast
next
  case False
  then have "\<forall>x\<in>set fm_lines. \<not> startswith x ''description:''" by blast
  from splice_lines_no_anchor [OF this, of ml ip]
  have "fm_lines = fm_lines @ []
     \<and> splice_lines ml ip fm_lines = fm_lines @ additions ml ip fm_lines @ []"
    by simp
  then show ?thesis by blast
qed

text \<open>
  Claim C5. The output of the mutator is the original line sequence with the additions
  inserted at one place, so every original line is kept in its order. The additions follow
  the first line that begins with \<^verbatim>\<open>description:\<close> directly, the metadata line first and the
  flag line (when required and not already defined) after it; when no line begins with
  \<^verbatim>\<open>description:\<close>, the same additions are appended at the end of the block.
\<close>

theorem splice_lines_placement:
  "(\<exists>pre post. fm_lines = pre @ post
      \<and> splice_lines metadata_line is_persona fm_lines
          = pre @ additions metadata_line is_persona fm_lines @ post)
   \<and> (fm_lines = pre @ l # post \<and> startswith l ''description:''
      \<and> (\<forall>x\<in>set pre. \<not> startswith x ''description:'')
      \<longrightarrow> splice_lines metadata_line is_persona fm_lines
            = pre @ l # additions metadata_line is_persona fm_lines @ post)
   \<and> ((\<forall>x\<in>set fm_lines. \<not> startswith x ''description:'')
      \<longrightarrow> splice_lines metadata_line is_persona fm_lines
            = fm_lines @ additions metadata_line is_persona fm_lines)"
  using splice_lines_anchor [of fm_lines pre l post metadata_line is_persona]
    splice_lines_no_anchor [of fm_lines metadata_line is_persona]
    splice_lines_insertion [of fm_lines metadata_line is_persona]
  by blast

text \<open>Claim C5 on a block with the anchor line and on a block without it.\<close>

theorem splice_lines_placement_witness:
  "splice_lines ''M'' True [''name: a'', ''description: b'', ''license: c'']
     = [''name: a'', ''description: b'', ''M'', ''user-invocable: true'', ''license: c'']
   \<and> splice_lines ''M'' True [''name: a'', ''user-invocable: false'']
     = [''name: a'', ''user-invocable: false'', ''M'']"
proof -
  have 1: "splice_lines ''M'' True [''name: a'', ''description: b'', ''license: c'']
     = [''name: a'', ''description: b'', ''M'', ''user-invocable: true'', ''license: c'']"
    using splice_lines_placement [where fm_lines="[''name: a'', ''description: b'', ''license: c'']"
        and pre="[''name: a'']" and l="''description: b''" and post="[''license: c'']"
        and metadata_line="''M''" and is_persona=True]
    by (simp add: startswith_def additions_def)
  have 2: "splice_lines ''M'' True [''name: a'', ''user-invocable: false'']
     = [''name: a'', ''user-invocable: false'', ''M'']"
    using splice_lines_placement [where fm_lines="[''name: a'', ''user-invocable: false'']"
        and metadata_line="''M''" and is_persona=True]
    by (simp add: startswith_def additions_def)
  from 1 2 show ?thesis by simp
qed

subsection \<open>Splitting into lines and joining them\<close>

lemma prefix_single_drop:
  "prefix [c] (drop j s) \<longleftrightarrow> j < length s \<and> s ! j = c"
proof (cases "j < length s")
  case True
  then have "drop j s = s ! j # drop (Suc j) s" by (simp add: Cons_nth_drop_Suc)
  then show ?thesis using True by auto
next
  case False
  then show ?thesis by simp
qed

lemma find_sub_single_None:
  "find_sub [c] s = None \<longleftrightarrow> c \<notin> set s"
  unfolding find_sub_None_iff prefix_single_drop
  by (metis in_set_conv_nth less_imp_le_nat)

lemma find_sub_single_first:
  assumes "c \<notin> set a"
  shows "find_sub [c] (a @ c # b) = Some (length a)"
proof (rule find_sub_SomeI)
  show "length a \<le> length (a @ c # b)" by simp
  show "prefix [c] (drop (length a) (a @ c # b))" by simp
  show "\<forall>j<length a. \<not> prefix [c] (drop j (a @ c # b))"
  proof (intro allI impI)
    fix j assume j: "j < length a"
    then have "(a @ c # b) ! j = a ! j" by (simp add: nth_append)
    moreover from j assms have "a ! j \<noteq> c" by (metis nth_mem)
    ultimately show "\<not> prefix [c] (drop j (a @ c # b))"
      unfolding prefix_single_drop by simp
  qed
qed

lemma str_split_single_none:
  "c \<notin> set s \<Longrightarrow> str_split [c] s = [s]"
proof -
  assume "c \<notin> set s"
  then have "find_sub [c] s = None" by (simp add: find_sub_single_None)
  then show ?thesis by (subst str_split.simps) simp
qed

lemma str_split_single_first:
  "c \<notin> set a \<Longrightarrow> str_split [c] (a @ c # b) = a # str_split [c] b"
  by (subst str_split.simps) (simp add: find_sub_single_first)

lemma str_split_single_append:
  "str_split [c] (a @ c # b) = str_split [c] a @ str_split [c] b"
proof (induction "length a" arbitrary: a rule: less_induct)
  case less
  show ?case
  proof (cases "c \<in> set a")
    case False
    then show ?thesis by (simp add: str_split_single_first str_split_single_none)
  next
    case True
    then obtain a1 a2 where a: "a = a1 @ c # a2" and a1: "c \<notin> set a1"
      by (meson split_list_first)
    have "length a2 < length a" using a by simp
    from less [OF this]
    have ih: "str_split [c] (a2 @ c # b) = str_split [c] a2 @ str_split [c] b" .
    have "str_split [c] (a @ c # b) = a1 # str_split [c] (a2 @ c # b)"
      using str_split_single_first [OF a1, of "a2 @ c # b"] a by simp
    also have "\<dots> = (a1 # str_split [c] a2) @ str_split [c] b" using ih by simp
    also have "a1 # str_split [c] a2 = str_split [c] a"
      using str_split_single_first [OF a1, of a2] a by simp
    finally show ?thesis .
  qed
qed

lemma str_split_single_props:
  "str_split [c] s \<noteq> [] \<and> (\<forall>l\<in>set (str_split [c] s). c \<notin> set l)
     \<and> str_join [c] (str_split [c] s) = s"
proof (induction "length s" arbitrary: s rule: less_induct)
  case less
  show ?case
  proof (cases "c \<in> set s")
    case False
    then show ?thesis by (simp add: str_split_single_none)
  next
    case True
    then obtain a b where s: "s = a @ c # b" and a: "c \<notin> set a"
      by (meson split_list_first)
    have "length b < length s" using s by simp
    from less [OF this] have ih: "str_split [c] b \<noteq> []"
      "\<forall>l\<in>set (str_split [c] b). c \<notin> set l" "str_join [c] (str_split [c] b) = b"
      by simp_all
    have sp: "str_split [c] s = a # str_split [c] b"
      using str_split_single_first [OF a, of b] s by simp
    obtain y ys where y: "str_split [c] b = y # ys" using ih(1) by (cases "str_split [c] b") auto
    have "str_join [c] (a # str_split [c] b) = a @ [c] @ str_join [c] (str_split [c] b)"
      unfolding y by simp
    with ih(3) s have "str_join [c] (a # str_split [c] b) = s" by simp
    with sp ih(2) a show ?thesis by simp
  qed
qed

lemma str_split_join_single:
  assumes "ls \<noteq> []" and "\<forall>l\<in>set ls. c \<notin> set l"
  shows "str_split [c] (str_join [c] ls) = ls"
  using assms
proof (induction ls)
  case Nil
  then show ?case by simp
next
  case (Cons x xs)
  then have x: "c \<notin> set x" by simp
  show ?case
  proof (cases xs)
    case Nil
    with x show ?thesis by (simp add: str_split_single_none)
  next
    case (Cons y ys)
    with Cons.IH Cons.prems have "str_split [c] (str_join [c] xs) = xs" by simp
    moreover have "str_join [c] (x # xs) = x @ c # str_join [c] xs" using Cons by simp
    ultimately show ?thesis using x by (simp add: str_split_single_first)
  qed
qed

subsection \<open>The metadata line\<close>

lemma char_of_not_newline:
  fixes m :: nat
  assumes "10 < m" and "m < 256"
  shows "(char_of m :: char) \<noteq> CHR 0x0A"
proof
  assume "(char_of m :: char) = CHR 0x0A"
  then have "(of_char (char_of m :: char) :: nat) = of_char CHR 0x0A" by simp
  then have "m mod 256 = 10" by (simp add: of_char_of)
  with assms show False by simp
qed

lemma hex_digit_not_newline: "n < 16 \<Longrightarrow> hex_digit n \<noteq> CHR 0x0A"
  by (simp add: hex_digit_def char_of_not_newline)

lemma escape_char_no_newline: "CHR 0x0A \<notin> set (escape_char c)"
proof -
  have "(of_char c :: nat) mod 16 < 16" by simp
  moreover have "(of_char c :: nat) < 32 \<Longrightarrow> (of_char c :: nat) div 16 < 16" by simp
  ultimately show ?thesis
    using hex_digit_not_newline [of "of_char c mod 16"] hex_digit_not_newline [of "of_char c div 16"]
    by (auto simp: escape_char_def)
qed

lemma encode_basestring_no_newline: "CHR 0x0A \<notin> set (encode_basestring s)"
  using escape_char_no_newline by (auto simp: encode_basestring_def)

lemma encode_basestring_ascii:
  "encode_basestring ''openclaw'' = [CHR 0x22] @ ''openclaw'' @ [CHR 0x22]"
  "encode_basestring ''emoji'' = [CHR 0x22] @ ''emoji'' @ [CHR 0x22]"
  "encode_basestring ''os'' = [CHR 0x22] @ ''os'' @ [CHR 0x22]"
  "encode_basestring ''darwin'' = [CHR 0x22] @ ''darwin'' @ [CHR 0x22]"
  "encode_basestring ''linux'' = [CHR 0x22] @ ''linux'' @ [CHR 0x22]"
  "encode_basestring ''win32'' = [CHR 0x22] @ ''win32'' @ [CHR 0x22]"
  by (simp_all add: encode_basestring_def escape_char_def)

lemma build_metadata_line_eq:
  "build_metadata_line skill_path skill_name =
     ''metadata: {'' @ [CHR 0x22] @ ''openclaw'' @ [CHR 0x22] @ '': {'' @ [CHR 0x22] @ ''emoji''
       @ [CHR 0x22] @ '': '' @ encode_basestring (get_emoji skill_path skill_name) @ '', ''
       @ [CHR 0x22] @ ''os'' @ [CHR 0x22] @ '': ['' @ [CHR 0x22] @ ''darwin'' @ [CHR 0x22] @ '', ''
       @ [CHR 0x22] @ ''linux'' @ [CHR 0x22] @ '', '' @ [CHR 0x22] @ ''win32'' @ [CHR 0x22] @ '']}}''"
  by (simp add: build_metadata_line_def Let_def ALL_OS_def encode_basestring_ascii)

lemma build_metadata_line_no_newline:
  "CHR 0x0A \<notin> set (build_metadata_line skill_path skill_name)"
  using encode_basestring_no_newline [of "get_emoji skill_path skill_name"]
  by (simp add: build_metadata_line_eq)

lemma build_metadata_line_prefix:
  "prefix ''metadata:'' (build_metadata_line skill_path skill_name)"
  by (simp add: build_metadata_line_eq)

lemma build_metadata_line_neq:
  "build_metadata_line skill_path skill_name \<noteq> ''---''"
  "build_metadata_line skill_path skill_name \<noteq> ''user-invocable: true''"
  "\<not> prefix ''user-invocable:'' (build_metadata_line skill_path skill_name)"
  "\<not> prefix ''description:'' (build_metadata_line skill_path skill_name)"
  by (simp_all add: build_metadata_line_eq)

lemma get_emoji_with_range:
  "get_emoji_with ov em p n \<in> snd ` set ov \<union> snd ` set em \<union> {fallback_emoji}"
proof (cases "map_of ov n")
  case (Some v)
  then have "(n, v) \<in> set ov" by (rule map_of_SomeD)
  then have "v \<in> snd ` set ov" by force
  with Some show ?thesis by (simp add: get_emoji_with_def)
next
  case None
  show ?thesis
  proof (cases "first_prefix p (sort_key (\<lambda>x. - int (length (fst x))) em)")
    case N: None
    with None show ?thesis by (simp add: get_emoji_with_def)
  next
    case (Some v)
    from first_prefix_sorted_longest [OF Some] obtain k where "(k, v) \<in> set em" by blast
    then have "v \<in> snd ` set em" by force
    with None Some show ?thesis by (simp add: get_emoji_with_def)
  qed
qed

lemma table_values_plain:
  "list_all (\<lambda>v. concat (map escape_char v) = v)
     (map snd API_EMOJI_OVERRIDES @ map snd EMOJI_MAP @ [fallback_emoji])"
  by code_simp

lemma encode_basestring_get_emoji:
  "encode_basestring (get_emoji skill_path skill_name)
     = [CHR 0x22] @ get_emoji skill_path skill_name @ [CHR 0x22]"
proof -
  have "get_emoji skill_path skill_name
      \<in> set (map snd API_EMOJI_OVERRIDES @ map snd EMOJI_MAP @ [fallback_emoji])"
    using get_emoji_with_range [of API_EMOJI_OVERRIDES EMOJI_MAP skill_path skill_name]
    by (auto simp: get_emoji_def)
  with table_values_plain
  have "concat (map escape_char (get_emoji skill_path skill_name)) = get_emoji skill_path skill_name"
    unfolding list_all_iff by blast
  then show ?thesis by (simp add: encode_basestring_def)
qed

subsection \<open>The cases of the orchestrator\<close>

lemma has_metadata_eq:
  "has_metadata content =
     Inr (case find_sub end_marker content of
            None \<Rightarrow> False
          | Some i \<Rightarrow> str_contains ''\<newline>metadata:'' (take i content))"
proof (cases "find_sub end_marker content")
  case None
  then show ?thesis by (simp add: has_metadata_def str_contains_def end_marker_def)
next
  case (Some i)
  then have "str_split end_marker content
      = take i content # str_split end_marker (drop (i + length end_marker) content)"
    by (subst str_split.simps) (simp add: end_marker_def)
  with Some show ?thesis
    by (simp add: has_metadata_def str_contains_def end_marker_def [symmetric] item0_def)
qed

lemma has_metadata_skipped: "has_metadata content = Inr (skipped content)"
  by (simp add: skipped_def has_metadata_eq)

lemma skipped_eq:
  "skipped content \<longleftrightarrow>
     (case find_sub end_marker content of
        None \<Rightarrow> False
      | Some i \<Rightarrow> str_contains ''\<newline>metadata:'' (take i content))"
  by (simp add: skipped_def has_metadata_eq)

lemma process_skill_missing:
  "map_of (files w) p = None \<Longrightarrow> process_skill p dry_run verbose w = Inl FileNotFoundError"
  by (simp add: process_skill_def read_text_def Let_def)

lemma process_skill_skipped:
  assumes "map_of (files w) p = Some content" and "skipped content"
  shows "process_skill p dry_run verbose w =
     Inr (False, w\<lparr>stdout := stdout w @
            (if verbose then [''  SKIP '' @ path_str p @ '' (already has metadata)''] else [])\<rparr>)"
  using assms
  by (simp add: process_skill_def read_text_def Let_def has_metadata_skipped print_def)

lemma process_skill_error:
  assumes "map_of (files w) p = Some content" and "\<not> skipped content"
    and "parse_frontmatter content = Inl e"
  shows "process_skill p dry_run verbose w =
     Inr (False, w\<lparr>stdout := stdout w @
            [''  ERROR '' @ path_str p @ '': cannot parse frontmatter'']\<rparr>)"
proof -
  from assms(3) have "e = ValueError" by (simp add: parse_frontmatter_Inl)
  with assms show ?thesis
    by (simp add: process_skill_def read_text_def Let_def has_metadata_skipped print_def)
qed

lemma process_skill_modified:
  assumes "map_of (files w) p = Some content" and "\<not> skipped content"
    and "parse_frontmatter content = Inr (fm_text, body, raw)"
  shows "process_skill p dry_run verbose w =
     Inr (True,
          w\<lparr>files := (if dry_run then files w else AList.update p (rewritten p content) (files w)),
            stdout := stdout w @ name_warning (path_str p) fm_text @
              (if verbose then [(if dry_run then ''  DRY-RUN '' else ''  OK '') @ path_str p]
               else [])\<rparr>)"
  using assms
  by (simp add: process_skill_def read_text_def Let_def has_metadata_skipped print_def
      write_text_def rewritten_def)

subsection \<open>The batch loop\<close>

lemma process_skill_summary:
  assumes "map_of (files w) p = Some c"
  shows "\<exists>out. process_skill p dry_run verbose w =
     Inr (would_modify c,
          w\<lparr>files := (if would_modify c \<and> \<not> dry_run
                       then AList.update p (rewritten p c) (files w) else files w),
            stdout := stdout w @ out\<rparr>)"
proof (cases "skipped c")
  case True
  then have "\<not> would_modify c" by (simp add: would_modify_def)
  with process_skill_skipped [OF assms True, of dry_run verbose] show ?thesis
    by (intro exI [of _ "if verbose then [''  SKIP '' @ path_str p @ '' (already has metadata)'']
          else []"]) simp
next
  case False
  show ?thesis
  proof (cases "parse_frontmatter c")
    case (Inl e)
    with False have "\<not> would_modify c" by (simp add: would_modify_def)
    with process_skill_error [OF assms False Inl, of dry_run verbose] show ?thesis
      by (intro exI [of _ "[''  ERROR '' @ path_str p @ '': cannot parse frontmatter'']"]) simp
  next
    case (Inr r)
    obtain fm_text body raw where r: "r = (fm_text, body, raw)" by (cases r)
    from Inr False have "would_modify c" by (simp add: would_modify_def)
    with process_skill_modified [OF assms False Inr [unfolded r], of dry_run verbose]
    show ?thesis
      by (intro exI [of _ "name_warning (path_str p) fm_text @
            (if verbose then [(if dry_run then ''  DRY-RUN '' else ''  OK '') @ path_str p]
             else [])"]) simp
  qed
qed

lemma map_of_key: "map_of al k \<noteq> None \<longleftrightarrow> k \<in> fst ` set al"
  by (simp add: map_of_eq_None_iff)

lemma keys_update_present:
  "k \<in> fst ` set al \<Longrightarrow> fst ` set (AList.update k v al) = fst ` set al"
  by (auto simp: AList.dom_update)

lemma process_all_counts:
  assumes "distinct ps" and "\<forall>p\<in>set ps. p \<in> fst ` set (files w)"
  shows "\<exists>w'. process_all dry_run verbose ps (m, t, w) =
           Inr (m + length (filter (\<lambda>p. would_modify (content_of w p)) ps), t + length ps, w')
         \<and> fst ` set (files w') = fst ` set (files w)
         \<and> (dry_run \<longrightarrow> files w' = files w)"
  using assms
proof (induction ps arbitrary: m t w)
  case Nil
  then show ?case by simp
next
  case (Cons p ps)
  from Cons.prems(2) have pk: "p \<in> fst ` set (files w)" by simp
  then obtain c where c: "map_of (files w) p = Some c"
    using map_of_key [of "files w" p] by auto
  then have cw: "content_of w p = c" by (simp add: content_of_def)
  from process_skill_summary [OF c, of dry_run verbose] obtain out where
    ps: "process_skill p dry_run verbose w = Inr (would_modify c,
          w\<lparr>files := (if would_modify c \<and> \<not> dry_run
                       then AList.update p (rewritten p c) (files w) else files w),
            stdout := stdout w @ out\<rparr>)"
    by blast
  let ?w1 = "w\<lparr>files := (if would_modify c \<and> \<not> dry_run
                       then AList.update p (rewritten p c) (files w) else files w),
            stdout := stdout w @ out\<rparr>"
  have keys: "fst ` set (files ?w1) = fst ` set (files w)"
    using pk by (simp add: keys_update_present)
  have dry: "dry_run \<longrightarrow> files ?w1 = files w" by simp
  have same: "content_of ?w1 q = content_of w q" if "q \<in> set ps" for q
  proof -
    from that Cons.prems(1) have "q \<noteq> p" by auto
    then show ?thesis by (simp add: content_of_def update_conv')
  qed
  then have filt: "filter (\<lambda>q. would_modify (content_of ?w1 q)) ps
      = filter (\<lambda>q. would_modify (content_of w q)) ps"
    by (intro filter_cong) simp_all
  from Cons.prems have d: "distinct ps" and k: "\<forall>q\<in>set ps. q \<in> fst ` set (files ?w1)"
    using keys by simp_all
  from Cons.IH [OF d k, of "if would_modify c then m + 1 else m" "t + 1"] obtain w' where
    ih: "process_all dry_run verbose ps (if would_modify c then m + 1 else m, t + 1, ?w1) =
           Inr ((if would_modify c then m + 1 else m)
                  + length (filter (\<lambda>q. would_modify (content_of ?w1 q)) ps),
                t + 1 + length ps, w')"
    and k': "fst ` set (files w') = fst ` set (files ?w1)"
    and d': "dry_run \<longrightarrow> files w' = files ?w1"
    by blast
  have "process_all dry_run verbose (p # ps) (m, t, w) =
      Inr (m + length (filter (\<lambda>q. would_modify (content_of w q)) (p # ps)),
           t + length (p # ps), w')"
    using ps ih filt cw by simp
  moreover have "fst ` set (files w') = fst ` set (files w)" using k' keys by simp
  moreover have "dry_run \<longrightarrow> files w' = files w" using d' dry by simp
  ultimately show ?case by blast
qed

subsection \<open>The batch driver\<close>

lemma set_sorted_glob:
  "set (sorted_glob root w) =
     {p \<in> fst ` set (files w). 2 \<le> length p \<and> hd p = root \<and> last p = ''SKILL.md''}"
  by (auto simp: sorted_glob_def)

lemma distinct_sorted_glob: "distinct (sorted_glob root w)"
  by (simp add: sorted_glob_def)

lemma distinct_skill_files: "distinct (skill_files w)"
proof -
  have "set (sorted_glob r1 w) \<inter> set (sorted_glob r2 w) = {}" if "r1 \<noteq> r2" for r1 r2
    using that unfolding set_sorted_glob by blast
  then show ?thesis
    unfolding skill_files_def distinct_append set_append
    by (simp add: distinct_sorted_glob Int_Un_distrib)
qed

lemma skill_files_present: "p \<in> set (skill_files w) \<Longrightarrow> p \<in> fst ` set (files w)"
  unfolding skill_files_def set_append set_sorted_glob by blast

lemma skill_files_cong: "files w1 = files w2 \<Longrightarrow> skill_files w1 = skill_files w2"
  by (simp add: skill_files_def sorted_glob_def)

lemma content_of_cong: "files w1 = files w2 \<Longrightarrow> content_of w1 = content_of w2"
  by (rule ext) (simp add: content_of_def)

lemma main_result:
  "\<exists>w'. main argv w = Inr (0, w')
     \<and> last (stdout w') =
         summary_line (length (skill_files w))
           (length (filter (\<lambda>p. would_modify (content_of w p)) (skill_files w)))
     \<and> fst ` set (files w') = fst ` set (files w)
     \<and> (''--dry-run'' \<in> set argv \<longrightarrow> files w' = files w)"
proof -
  define dry_run where "dry_run = (''--dry-run'' \<in> set argv)"
  define verbose where "verbose = (''--verbose'' \<in> set argv)"
  define w0 where "w0 = (if dry_run
                then print ([CHR ''D'', CHR ''R'', CHR ''Y'', CHR '' '', CHR ''R'', CHR ''U'', CHR ''N'',
                             CHR '' '', CHR 0xE2, CHR 0x80, CHR 0x94]
                            @ '' no files will be modified\<newline>'') w
                else w)"
  have f0: "files w0 = files w" by (simp add: w0_def print_def)
  have sf: "skill_files w0 = skill_files w" by (rule skill_files_cong [OF f0])
  have co: "content_of w0 = content_of w" by (rule content_of_cong [OF f0])
  have pres: "\<forall>p\<in>set (skill_files w0). p \<in> fst ` set (files w0)"
    using skill_files_present by blast
  from process_all_counts [OF distinct_skill_files pres, of dry_run verbose 0 0] obtain w1 where
    pa: "process_all dry_run verbose (skill_files w0) (0, 0, w0) =
           Inr (0 + length (filter (\<lambda>p. would_modify (content_of w0 p)) (skill_files w0)),
                0 + length (skill_files w0), w1)"
    and k: "fst ` set (files w1) = fst ` set (files w0)"
    and d: "dry_run \<longrightarrow> files w1 = files w0"
    by blast
  let ?m = "length (filter (\<lambda>p. would_modify (content_of w p)) (skill_files w))"
  let ?t = "length (skill_files w)"
  let ?w' = "print (''\<newline>Processed '' @ str_nat ?t @ '' skills, modified '' @ str_nat ?m) w1"
  have "main argv w =
      (case process_all dry_run verbose (skill_files w0) (0, 0, w0) of
         Inl e \<Rightarrow> Inl e
       | Inr (modified, total_n, w1) \<Rightarrow>
           Inr (0, print (''\<newline>Processed '' @ str_nat total_n @ '' skills, modified ''
                          @ str_nat modified) w1))"
    unfolding main_def Let_def dry_run_def verbose_def w0_def skill_files_def ..
  also have "\<dots> = Inr (0, ?w')"
  proof -
    from pa have "process_all dry_run verbose (skill_files w) (0, 0, w0) = Inr (?m, ?t, w1)"
      unfolding sf co by simp
    then show ?thesis unfolding sf by simp
  qed
  finally have "main argv w = Inr (0, ?w')" .
  moreover have "last (stdout ?w') = summary_line ?t ?m"
    by (simp add: print_def summary_line_def)
  moreover have "fst ` set (files ?w') = fst ` set (files w)"
    using k f0 by (simp add: print_def)
  moreover have "''--dry-run'' \<in> set argv \<longrightarrow> files ?w' = files w"
    using d f0 by (simp add: print_def dry_run_def)
  ultimately show ?thesis by blast
qed

subsection \<open>Parse failures and dry runs\<close>

lemma str_contains_length:
  assumes "str_contains sub s"
  shows "length sub \<le> length s"
proof -
  from assms obtain j where "find_sub sub s = Some j" by (auto simp: str_contains_def)
  then have "prefix sub (drop j s)" by (simp add: find_sub_Some_prefix)
  then have "length sub \<le> length (drop j s)" by (rule prefix_length_le)
  then show ?thesis by simp
qed

lemma unterminated_not_skipped:
  assumes st: "startswith content start_marker" and pf: "parse_frontmatter content = Inl e"
  shows "\<not> skipped content"
proof
  assume sk: "skipped content"
  from st pf have none: "find_sub end_marker (drop 4 content) = None"
    by (simp add: parse_frontmatter_Inl startswith_def)
  from sk obtain i where i: "find_sub end_marker content = Some i"
    and c: "str_contains ''\<newline>metadata:'' (take i content)"
    by (auto simp: skipped_eq split: option.splits)
  from find_sub_Some_prefix [OF i] have le: "i \<le> length content"
    and pre: "prefix end_marker (drop i content)" by simp_all
  have "i < 4"
  proof (rule ccontr)
    assume "\<not> i < 4"
    then have "drop i content = drop (i - 4) (drop 4 content)" by simp
    moreover have "i - 4 \<le> length (drop 4 content)" using le by simp
    ultimately show False using none pre by (simp add: find_sub_None_iff)
  qed
  moreover from str_contains_length [OF c] have "10 \<le> length (take i content)" by simp
  ultimately show False by simp
qed

text \<open>
  Claim C7, as amended. For a file whose text fails frontmatter parsing, \<open>process_skill\<close>
  returns \<open>False\<close> and leaves every file as it is; it prints the error line for the file unless
  the test for an existing metadata line has already skipped the file, which cannot happen to
  a text that begins with the start marker (so not to a document that only lacks the closing
  marker). The batch goes on with the remaining files, having counted the file in the total
  and not in the modified count: \<open>main\<close> returns exit code 0 and its summary gives the number
  of files found and the number of those that get a new text.
\<close>

theorem parse_failure_isolated:
  assumes "map_of (files w) p = Some content" and "parse_frontmatter content = Inl e"
  shows "\<exists>w'. process_skill p dry_run verbose w = Inr (False, w')
           \<and> files w' = files w
           \<and> (\<not> skipped content \<longrightarrow>
                stdout w' = stdout w @ [''  ERROR '' @ path_str p @ '': cannot parse frontmatter''])
           \<and> (startswith content start_marker \<longrightarrow> \<not> skipped content)
           \<and> process_all dry_run verbose (p # rest) (m, t, w)
               = process_all dry_run verbose rest (m, t + 1, w')
           \<and> \<not> would_modify content
           \<and> (\<exists>w''. main argv w = Inr (0, w'')
                \<and> last (stdout w'') =
                    summary_line (length (skill_files w))
                      (length (filter (\<lambda>q. would_modify (content_of w q)) (skill_files w))))"
proof -
  have nw: "\<not> would_modify content" using assms(2) by (simp add: would_modify_def)
  have un: "startswith content start_marker \<longrightarrow> \<not> skipped content"
    using unterminated_not_skipped [OF _ assms(2)] by blast
  have mn: "\<exists>w''. main argv w = Inr (0, w'')
                \<and> last (stdout w'') =
                    summary_line (length (skill_files w))
                      (length (filter (\<lambda>q. would_modify (content_of w q)) (skill_files w)))"
    using main_result [of argv w] by blast
  show ?thesis
  proof (cases "skipped content")
    case True
    let ?w' = "w\<lparr>stdout := stdout w @
            (if verbose then [''  SKIP '' @ path_str p @ '' (already has metadata)''] else [])\<rparr>"
    have ps: "process_skill p dry_run verbose w = Inr (False, ?w')"
      by (rule process_skill_skipped [OF assms(1) True])
    then have "process_all dry_run verbose (p # rest) (m, t, w)
               = process_all dry_run verbose rest (m, t + 1, ?w')"
      by simp
    with ps True nw un mn show ?thesis by (intro exI [of _ ?w']) simp
  next
    case False
    let ?w' = "w\<lparr>stdout := stdout w @
            [''  ERROR '' @ path_str p @ '': cannot parse frontmatter'']\<rparr>"
    have ps: "process_skill p dry_run verbose w = Inr (False, ?w')"
      by (rule process_skill_error [OF assms(1) False assms(2)])
    then have "process_all dry_run verbose (p # rest) (m, t, w)
               = process_all dry_run verbose rest (m, t + 1, ?w')"
      by simp
    with ps False nw un mn show ?thesis by (intro exI [of _ ?w']) simp
  qed
qed

text \<open>
  Claim C7, as amended, on a file that lacks the closing marker: the error line is printed,
  nothing is written and the result is \<open>False\<close>.
\<close>

theorem parse_failure_isolated_witness:
  "\<exists>w'. process_skill [''agents'', ''b'', ''SKILL.md''] False True
           \<lparr>files = [([''agents'', ''b'', ''SKILL.md''], ''---\<newline>name: b\<newline>'')], stdout = []\<rparr>
         = Inr (False, w')
       \<and> files w' = [([''agents'', ''b'', ''SKILL.md''], ''---\<newline>name: b\<newline>'')]
       \<and> stdout w' = [''  ERROR agents/b/SKILL.md: cannot parse frontmatter'']"
proof -
  let ?p = "[''agents'', ''b'', ''SKILL.md'']"
  let ?c = "''---\<newline>name: b\<newline>''"
  let ?w = "\<lparr>files = [(?p, ?c)], stdout = []\<rparr>"
  have 1: "map_of (files ?w) ?p = Some ?c" by simp
  have 2: "parse_frontmatter ?c = Inl ValueError"
    by (simp add: parse_frontmatter_def startswith_def str_index_def)
  have 3: "startswith ?c start_marker" by (simp add: startswith_def start_marker_def)
  have 4: "path_str ?p = ''agents/b/SKILL.md''" by (simp add: path_str_def)
  from parse_failure_isolated [OF 1 2, of False True "[]" 0 0 "[]"] 3 4
  show ?thesis by auto
qed

text \<open>
  Claim C7 as it is stated fails: this text does not begin with the start marker, so it fails
  frontmatter parsing, but it has a \<^verbatim>\<open>metadata:\<close> line before a marker line, and the file is
  skipped as already having metadata; no error is reported for it.
\<close>

theorem parse_failure_isolated_counterexample:
  "parse_frontmatter ''name: a\<newline>metadata: {}\<newline>---\<newline>Body\<newline>'' = Inl ValueError
   \<and> process_skill [''workflows'', ''a'', ''SKILL.md''] False True
        \<lparr>files = [([''workflows'', ''a'', ''SKILL.md''], ''name: a\<newline>metadata: {}\<newline>---\<newline>Body\<newline>'')],
         stdout = []\<rparr>
      = Inr (False,
          \<lparr>files = [([''workflows'', ''a'', ''SKILL.md''], ''name: a\<newline>metadata: {}\<newline>---\<newline>Body\<newline>'')],
           stdout = [''  SKIP workflows/a/SKILL.md (already has metadata)'']\<rparr>)
   \<and> process_skill [''workflows'', ''a'', ''SKILL.md''] False False
        \<lparr>files = [([''workflows'', ''a'', ''SKILL.md''], ''name: a\<newline>metadata: {}\<newline>---\<newline>Body\<newline>'')],
         stdout = []\<rparr>
      = Inr (False,
          \<lparr>files = [([''workflows'', ''a'', ''SKILL.md''], ''name: a\<newline>metadata: {}\<newline>---\<newline>Body\<newline>'')],
           stdout = []\<rparr>)"
proof -
  let ?p = "[''workflows'', ''a'', ''SKILL.md'']"
  let ?c = "''name: a\<newline>metadata: {}\<newline>---\<newline>Body\<newline>''"
  let ?w = "\<lparr>files = [(?p, ?c)], stdout = []\<rparr>"
  have 1: "map_of (files ?w) ?p = Some ?c" by simp
  have 2: "parse_frontmatter ?c = Inl ValueError"
    by (simp add: parse_frontmatter_def startswith_def)
  have 3: "skipped ?c"
    by (simp add: skipped_def has_metadata_def str_contains_def item0_def str_split.simps)
  have 4: "path_str ?p = ''workflows/a/SKILL.md''" by (simp add: path_str_def)
  from process_skill_skipped [OF 1 3, of False True] process_skill_skipped [OF 1 3, of False False]
    2 4
  show ?thesis by simp
qed

text \<open>
  Claim C9. With the dry-run flag \<open>process_skill\<close> writes no file. On an existing file it
  returns what the write-mode run returns (\<open>True\<close> exactly for a document that the write-mode
  run rewrites) and prints the same lines, except that the last status line of a verbose run
  says \<^verbatim>\<open>DRY-RUN\<close> instead of \<^verbatim>\<open>OK\<close>. A dry run of \<open>main\<close> leaves every file as it is and ends
  with the same summary line as any other run on the same files.
\<close>

theorem dry_run_frame:
  "(process_skill p True verbose w = Inr (b, w') \<longrightarrow> files w' = files w)
   \<and> (map_of (files w) p = Some content \<longrightarrow>
        (\<exists>wd ww out.
           process_skill p True verbose w = Inr (would_modify content, wd)
         \<and> process_skill p False verbose w = Inr (would_modify content, ww)
         \<and> files wd = files w
         \<and> files ww = (if would_modify content
                        then AList.update p (rewritten p content) (files w) else files w)
         \<and> stdout wd = stdout w @ out
              @ (if would_modify content \<and> verbose then [''  DRY-RUN '' @ path_str p] else [])
         \<and> stdout ww = stdout w @ out
              @ (if would_modify content \<and> verbose then [''  OK '' @ path_str p] else [])))
   \<and> (\<exists>wd ww. main (''--dry-run'' # argv) w = Inr (0, wd) \<and> main argv' w = Inr (0, ww)
         \<and> files wd = files w \<and> last (stdout wd) = last (stdout ww))"
proof -
  have 1: "files w' = files w" if r: "process_skill p True verbose w = Inr (b, w')"
  proof (cases "map_of (files w) p")
    case None
    with r show ?thesis by (simp add: process_skill_missing)
  next
    case (Some c)
    from process_skill_summary [OF Some, of True verbose] r show ?thesis by auto
  qed
  have 2: "\<exists>wd ww out.
           process_skill p True verbose w = Inr (would_modify content, wd)
         \<and> process_skill p False verbose w = Inr (would_modify content, ww)
         \<and> files wd = files w
         \<and> files ww = (if would_modify content
                        then AList.update p (rewritten p content) (files w) else files w)
         \<and> stdout wd = stdout w @ out
              @ (if would_modify content \<and> verbose then [''  DRY-RUN '' @ path_str p] else [])
         \<and> stdout ww = stdout w @ out
              @ (if would_modify content \<and> verbose then [''  OK '' @ path_str p] else [])"
    if c: "map_of (files w) p = Some content"
  proof (cases "skipped content")
    case True
    then have nw: "\<not> would_modify content" by (simp add: would_modify_def)
    let ?out = "if verbose then [''  SKIP '' @ path_str p @ '' (already has metadata)''] else []"
    let ?w' = "w\<lparr>stdout := stdout w @ ?out\<rparr>"
    from process_skill_skipped [OF c True, of True verbose]
      process_skill_skipped [OF c True, of False verbose] nw
    show ?thesis by (intro exI [of _ ?w'] exI [of _ ?out]) simp
  next
    case False
    show ?thesis
    proof (cases "parse_frontmatter content")
      case (Inl e)
      with False have nw: "\<not> would_modify content" by (simp add: would_modify_def)
      let ?out = "[''  ERROR '' @ path_str p @ '': cannot parse frontmatter'']"
      let ?w' = "w\<lparr>stdout := stdout w @ ?out\<rparr>"
      from process_skill_error [OF c False Inl, of True verbose]
        process_skill_error [OF c False Inl, of False verbose] nw
      show ?thesis by (intro exI [of _ ?w'] exI [of _ ?out]) simp
    next
      case (Inr r)
      obtain fm_text body raw where r: "r = (fm_text, body, raw)" by (cases r)
      from Inr False have wm: "would_modify content" by (simp add: would_modify_def)
      let ?out = "name_warning (path_str p) fm_text"
      let ?wd = "w\<lparr>files := files w,
            stdout := stdout w @ ?out @ (if verbose then [''  DRY-RUN '' @ path_str p] else [])\<rparr>"
      let ?ww = "w\<lparr>files := AList.update p (rewritten p content) (files w),
            stdout := stdout w @ ?out @ (if verbose then [''  OK '' @ path_str p] else [])\<rparr>"
      from process_skill_modified [OF c False Inr [unfolded r], of True verbose]
        process_skill_modified [OF c False Inr [unfolded r], of False verbose] wm
      show ?thesis by (intro exI [of _ ?wd] exI [of _ ?ww] exI [of _ ?out]) simp
    qed
  qed
  have 3: "\<exists>wd ww. main (''--dry-run'' # argv) w = Inr (0, wd) \<and> main argv' w = Inr (0, ww)
         \<and> files wd = files w \<and> last (stdout wd) = last (stdout ww)"
  proof -
    from main_result [of "''--dry-run'' # argv" w] obtain wd where
      "main (''--dry-run'' # argv) w = Inr (0, wd)" "files wd = files w"
      "last (stdout wd) = summary_line (length (skill_files w))
           (length (filter (\<lambda>p. would_modify (content_of w p)) (skill_files w)))"
      by auto
    moreover from main_result [of argv' w] obtain ww where
      "main argv' w = Inr (0, ww)"
      "last (stdout ww) = summary_line (length (skill_files w))
           (length (filter (\<lambda>p. would_modify (content_of w p)) (skill_files w)))"
      by auto
    ultimately show ?thesis by auto
  qed
  from 1 2 3 show ?thesis by blast
qed

text \<open>Claim C9 on a file that a write-mode run rewrites: the dry run returns \<open>True\<close> and keeps
  the file.\<close>

theorem dry_run_frame_witness:
  "\<exists>wd ww. process_skill [''agents'', ''a'', ''SKILL.md''] True False
              \<lparr>files = [([''agents'', ''a'', ''SKILL.md''], ''---\<newline>name: a\<newline>---\<newline>B'')], stdout = []\<rparr>
            = Inr (True, wd)
          \<and> process_skill [''agents'', ''a'', ''SKILL.md''] False False
              \<lparr>files = [([''agents'', ''a'', ''SKILL.md''], ''---\<newline>name: a\<newline>---\<newline>B'')], stdout = []\<rparr>
            = Inr (True, ww)
          \<and> files wd = [([''agents'', ''a'', ''SKILL.md''], ''---\<newline>name: a\<newline>---\<newline>B'')]"
proof -
  let ?p = "[''agents'', ''a'', ''SKILL.md'']"
  let ?c = "''---\<newline>name: a\<newline>---\<newline>B''"
  let ?w = "\<lparr>files = [(?p, ?c)], stdout = []\<rparr>"
  have 1: "map_of (files ?w) ?p = Some ?c" by simp
  have 2: "parse_frontmatter ?c = Inr (''name: a'', ''B'', ''---\<newline>name: a\<newline>---\<newline>'')"
    by (simp add: parse_frontmatter_def startswith_def str_index_def)
  have 3: "\<not> skipped ?c"
    by (simp add: skipped_def has_metadata_def str_contains_def item0_def str_split.simps)
  from 2 3 have 4: "would_modify ?c" by (simp add: would_modify_def)
  from dry_run_frame [where p="?p" and verbose=False and w="?w" and content="?c",
      THEN conjunct2, THEN conjunct1, rule_format, OF 1]
  obtain wd ww where "process_skill ?p True False ?w = Inr (would_modify ?c, wd)"
    and "process_skill ?p False False ?w = Inr (would_modify ?c, ww)"
    and "files wd = files ?w"
    by blast
  with 4 show ?thesis by auto
qed

subsection \<open>The scenario\<close>

lemma scenario_parse:
  "parse_frontmatter scenario_doc
     = Inr (''name: my-skill\<newline>description: does a thing'', ''Body text.\<newline>'',
            ''---\<newline>name: my-skill\<newline>description: does a thing\<newline>---\<newline>'')"
  unfolding scenario_doc_def by code_simp

lemma scenario_not_skipped: "\<not> skipped scenario_doc"
  unfolding scenario_doc_def skipped_def by code_simp

lemma scenario_lines:
  "str_split ''\<newline>'' ''name: my-skill\<newline>description: does a thing''
     = [''name: my-skill'', ''description: does a thing'']"
  by code_simp

lemma scenario_name_ok:
  "search_name True ''name: my-skill\<newline>description: does a thing'' = Some ''my-skill''"
  by code_simp

lemma scenario_name_match:
  "openclaw_name_match
     (str_strip_chars [CHR 0x27] (str_strip_chars [CHR 0x22] (str_strip ''my-skill'')))"
  by code_simp

lemma scenario_no_warning:
  "name_warning rel ''name: my-skill\<newline>description: does a thing'' = []"
  unfolding name_warning_def scenario_name_ok using scenario_name_match by (simp add: Let_def)

lemma scenario_splice:
  "splice_lines ml True [''name: my-skill'', ''description: does a thing'']
     = [''name: my-skill'', ''description: does a thing'', ml, ''user-invocable: true'']"
proof -
  have "splice_lines ml True ([''name: my-skill''] @ ''description: does a thing'' # [])
      = [''name: my-skill''] @ ''description: does a thing''
          # additions ml True ([''name: my-skill''] @ ''description: does a thing'' # []) @ []"
    by (rule splice_lines_anchor) (simp_all add: startswith_def)
  then show ?thesis by (simp add: additions_def)
qed

lemma scenario_rewritten:
  assumes "startswith (path_str (parent p)) ''personas/''"
  shows "rewritten p scenario_doc
     = scenario_result (get_emoji (path_str (parent p)) (path_name (parent p)))"
  unfolding rewritten_def scenario_parse
  using assms
  by (simp add: scenario_lines scenario_splice build_metadata_line_eq
      encode_basestring_get_emoji scenario_result_def)

text \<open>
  Claim C2. For the scenario's document under a persona path, \<open>process_skill\<close> in write mode
  returns \<open>True\<close> and writes the document in which the \<^verbatim>\<open>description:\<close> line is followed by the
  metadata line, with the decorative value of the path between the quotes of the \<^verbatim>\<open>emoji\<close>
  field, and by the line \<^verbatim>\<open>user-invocable: true\<close>; the other lines and the body are as before.
  Nothing is printed unless the run is verbose.
\<close>

theorem scenario_persona:
  assumes "map_of (files w) p = Some scenario_doc"
    and "startswith (path_str (parent p)) ''personas/''"
  shows "process_skill p False verbose w =
     Inr (True,
          w\<lparr>files := AList.update p
                       (scenario_result (get_emoji (path_str (parent p)) (path_name (parent p))))
                       (files w),
            stdout := stdout w @ (if verbose then [''  OK '' @ path_str p] else [])\<rparr>)"
  using process_skill_modified [OF assms(1) scenario_not_skipped scenario_parse, of False verbose]
  by (simp add: scenario_rewritten [OF assms(2)] scenario_no_warning)

text \<open>Claim C2 for the skill \<^verbatim>\<open>personas/api/api-tester\<close>, whose decorative value is the override
  of \<^verbatim>\<open>api-tester\<close>.\<close>

theorem scenario_persona_witness:
  \<open>process_skill [''personas'', ''api'', ''api-tester'', ''SKILL.md''] False False
     \<lparr>files = [([''personas'', ''api'', ''api-tester'', ''SKILL.md''], scenario_doc)], stdout = []\<rparr>
   = Inr (True,
       \<lparr>files = [([''personas'', ''api'', ''api-tester'', ''SKILL.md''],
          ''---\<newline>name: my-skill\<newline>description: does a thing\<newline>''
          @ ''metadata: {"openclaw": {"emoji": "'' @ [CHR 0xF0, CHR 0x9F, CHR 0xA7, CHR 0xAA]
          @ ''", "os": ["darwin", "linux", "win32"]}}''
          @ ''\<newline>user-invocable: true\<newline>---\<newline>Body text.\<newline>'')],
        stdout = []\<rparr>)\<close>
proof -
  let ?p = "[''personas'', ''api'', ''api-tester'', ''SKILL.md'']"
  let ?w = "\<lparr>files = [(?p, scenario_doc)], stdout = []\<rparr>"
  have 1: "map_of (files ?w) ?p = Some scenario_doc" by simp
  have 2: "path_str (parent ?p) = ''personas/api/api-tester''"
    by (simp add: parent_def path_str_def)
  have 3: "startswith (path_str (parent ?p)) ''personas/''"
    unfolding 2 by (simp add: startswith_def)
  have 4: "path_name (parent ?p) = ''api-tester''" by (simp add: parent_def path_name_def)
  have 5: "get_emoji ''personas/api/api-tester'' ''api-tester'' = [CHR 0xF0, CHR 0x9F, CHR 0xA7, CHR 0xAA]"
    by code_simp
  from scenario_persona [OF 1 3, of False] show ?thesis
    unfolding 2 4 5 by (simp add: scenario_result_def)
qed

subsection \<open>Marker lines inside the block\<close>

lemma str_join_append:
  "xs \<noteq> [] \<Longrightarrow> ys \<noteq> [] \<Longrightarrow> str_join sep (xs @ ys) = str_join sep xs @ sep @ str_join sep ys"
proof (induction xs)
  case Nil
  then show ?case by simp
next
  case (Cons x xs)
  show ?case
  proof (cases xs)
    case Nil
    with Cons.prems(2) show ?thesis by (cases ys) simp_all
  next
    case (Cons z zs)
    with Cons.IH Cons.prems show ?thesis by simp
  qed
qed

lemma str_split_nonempty: "str_split [c] s \<noteq> []"
  using str_split_single_props [of c s] by simp

text \<open>The block found by the parser has no marker line after its first line.\<close>

lemma block_no_marker_line:
  assumes f: "find_sub end_marker rest = Some i"
  shows "''---'' \<notin> set (tl (str_split ''\<newline>'' (take i rest)))"
proof
  let ?fm = "take i rest"
  let ?ls = "str_split ''\<newline>'' ?fm"
  assume m: "''---'' \<in> set (tl ?ls)"
  from find_sub_Some_prefix [OF f] have il: "i \<le> length rest" by simp
  then have len: "length ?fm = i" by simp
  from find_sub_Some_split [OF f]
  have rest: "rest = ?fm @ end_marker @ drop (i + length end_marker) rest" .
  from m obtain ys zs where tl: "tl ?ls = ys @ ''---'' # zs" by (meson split_list)
  have ne: "?ls \<noteq> []" by (rule str_split_nonempty)
  then have ls: "?ls = (hd ?ls # ys) @ ''---'' # zs"
    using tl by (cases ?ls) simp_all
  have join: "str_join ''\<newline>'' ?ls = ?fm"
    using str_split_single_props [of "CHR 0x0A" ?fm] by simp
  let ?A = "str_join ''\<newline>'' (hd ?ls # ys)"
  have fm: "?fm = ?A @ ''\<newline>'' @ str_join ''\<newline>'' (''---'' # zs)"
    using join str_join_append [of "hd ?ls # ys" "''---'' # zs" "''\<newline>''"] ls by simp
  have "\<exists>t. ?fm @ end_marker = ?A @ end_marker @ t"
  proof (cases zs)
    case Nil
    with fm have "?fm = ?A @ ''\<newline>---''" by simp
    then have "?fm @ end_marker = ?A @ end_marker @ ''---\<newline>''"
      by (simp add: end_marker_def)
    then show ?thesis by blast
  next
    case (Cons z zs')
    with fm have "?fm = ?A @ ''\<newline>---\<newline>'' @ str_join ''\<newline>'' (z # zs')" by simp
    then have "?fm @ end_marker = ?A @ end_marker @ (str_join ''\<newline>'' (z # zs') @ end_marker)"
      by (simp add: end_marker_def)
    then show ?thesis by blast
  qed
  then obtain t where t: "?fm @ end_marker = ?A @ end_marker @ t" by blast
  have "rest = ?A @ end_marker @ (t @ drop (i + length end_marker) rest)"
    using rest t by (metis append.assoc)
  then have "prefix end_marker (drop (length ?A) rest)"
    by (metis append_eq_conv_conj prefixI)
  moreover have "length ?A < i"
  proof -
    have "length ?fm = length ?A + length (''\<newline>'' @ str_join ''\<newline>'' (''---'' # zs))"
      using fm by (metis length_append)
    then show ?thesis using len by simp
  qed
  ultimately show False using find_sub_Some_first [OF f] by blast
qed

text \<open>Conversely, after a joined block without such a line, the end marker is found right at
  the end of the block.\<close>

lemma joined_block_found:
  assumes ne: "ls \<noteq> []" and nl: "\<forall>l\<in>set ls. CHR 0x0A \<notin> set l"
    and nm: "''---'' \<notin> set (tl ls)"
  shows "find_sub end_marker (str_join ''\<newline>'' ls @ end_marker @ b)
           = Some (length (str_join ''\<newline>'' ls))"
proof (rule find_sub_SomeI)
  let ?L = "str_join ''\<newline>'' ls"
  let ?T = "?L @ end_marker @ b"
  show "length ?L \<le> length ?T" by simp
  show "prefix end_marker (drop (length ?L) ?T)" by simp
  show "\<forall>j<length ?L. \<not> prefix end_marker (drop j ?T)"
  proof (intro allI impI notI)
    fix j assume j: "j < length ?L" and p: "prefix end_marker (drop j ?T)"
    let ?a = "take j ?L"
    let ?r = "drop j ?L"
    from j have dj: "drop j ?T = ?r @ end_marker @ b" by simp
    from j have rne: "?r \<noteq> []" by simp
    from p dj obtain c where c: "?r @ end_marker @ b = end_marker @ c"
      by (auto simp: prefix_def)
    from rne obtain x r' where r: "?r = x # r'" by (cases ?r) auto
    with c have x: "x = CHR 0x0A" and r': "r' @ end_marker @ b = ''---'' @ CHR 0x0A # c"
      by (simp_all add: end_marker_def)
    have L: "?L = ?a @ CHR 0x0A # r'"
      using r x by (metis append_take_drop_id)
    have "str_split ''\<newline>'' ?L = ls"
      using str_split_join_single [OF ne nl] by simp
    with L have ls: "ls = str_split ''\<newline>'' ?a @ str_split ''\<newline>'' r'"
      using str_split_single_append [of "CHR 0x0A" ?a r'] by simp
    have "str_split ''\<newline>'' (r' @ CHR 0x0A # (''---'' @ CHR 0x0A # b))
        = str_split ''\<newline>'' (''---'' @ CHR 0x0A # c)"
      using r' by (simp add: end_marker_def)
    then have "str_split ''\<newline>'' r' @ str_split ''\<newline>'' (''---'' @ CHR 0x0A # b)
        = str_split ''\<newline>'' ''---'' @ str_split ''\<newline>'' c"
      unfolding str_split_single_append .
    moreover have "str_split ''\<newline>'' ''---'' = [''---'']"
      by (rule str_split_single_none) simp
    ultimately have eq: "str_split ''\<newline>'' r' @ str_split ''\<newline>'' (''---'' @ CHR 0x0A # b)
        = ''---'' # str_split ''\<newline>'' c"
      by simp
    have ne': "str_split ''\<newline>'' r' \<noteq> []" by (rule str_split_nonempty)
    then obtain y ys where y: "str_split ''\<newline>'' r' = y # ys"
      by (cases "str_split ''\<newline>'' r'") auto
    with eq have "y = ''---''" by simp
    have nea: "str_split ''\<newline>'' ?a \<noteq> []" by (rule str_split_nonempty)
    then have "tl (str_split ''\<newline>'' ?a @ y # ys) = tl (str_split ''\<newline>'' ?a) @ y # ys"
      by (rule tl_append2)
    with ls y have "tl ls = tl (str_split ''\<newline>'' ?a) @ y # ys" by metis
    with \<open>y = ''---''\<close> have "''---'' \<in> set (tl ls)" by simp
    with nm show False by simp
  qed
qed

lemma splice_lines_insertion_nonempty:
  assumes "fm_lines \<noteq> []"
  shows "\<exists>pre post. pre \<noteq> [] \<and> fm_lines = pre @ post
     \<and> splice_lines ml ip fm_lines = pre @ additions ml ip fm_lines @ post"
proof (cases "\<exists>x\<in>set fm_lines. startswith x ''description:''")
  case True
  then obtain pre l post where fm: "fm_lines = pre @ l # post"
    and l: "startswith l ''description:''"
    and pre: "\<forall>x\<in>set pre. \<not> startswith x ''description:''"
    using split_list_first_prop [of fm_lines "\<lambda>x. startswith x ''description:''"] by blast
  from splice_lines_anchor [OF fm l pre, of ml ip] fm
  have "pre @ [l] \<noteq> [] \<and> fm_lines = (pre @ [l]) @ post
     \<and> splice_lines ml ip fm_lines = (pre @ [l]) @ additions ml ip fm_lines @ post"
    by simp
  then show ?thesis by blast
next
  case False
  then have "\<forall>x\<in>set fm_lines. \<not> startswith x ''description:''" by blast
  from splice_lines_no_anchor [OF this, of ml ip] assms
  have "fm_lines \<noteq> [] \<and> fm_lines = fm_lines @ []
     \<and> splice_lines ml ip fm_lines = fm_lines @ additions ml ip fm_lines @ []"
    by simp
  then show ?thesis by blast
qed

subsection \<open>The rewritten text\<close>

lemma additions_props:
  "additions (build_metadata_line sp sn) ip fm_lines \<noteq> []"
  "''---'' \<notin> set (additions (build_metadata_line sp sn) ip fm_lines)"
  "\<forall>l\<in>set (additions (build_metadata_line sp sn) ip fm_lines). CHR 0x0A \<notin> set l"
  using build_metadata_line_no_newline [of sp sn] build_metadata_line_neq(1) [of sp sn]
  by (auto simp: additions_def)

lemma file_lines_framed:
  "file_lines (start_marker @ fm @ end_marker @ body)
     = ''---'' # str_split ''\<newline>'' fm @ ''---'' # file_lines body"
proof -
  have 1: "start_marker @ fm @ end_marker @ body
      = ''---'' @ CHR 0x0A # (fm @ CHR 0x0A # (''---'' @ CHR 0x0A # body))"
    by (simp add: start_marker_def end_marker_def)
  have 2: "str_split ''\<newline>'' ''---'' = [''---'']"
    by (rule str_split_single_none) simp
  show ?thesis
    unfolding file_lines_def 1 str_split_single_append 2 by simp
qed

lemma rewritten_eq:
  assumes "parse_frontmatter content = Inr (fm, body, raw)"
  shows "rewritten p content =
     start_marker @ str_join ''\<newline>'' (spliced p (str_split ''\<newline>'' fm)) @ end_marker @ body"
  using assms
  by (simp add: rewritten_def spliced_def persona_path_def start_marker_def end_marker_def)

lemma spliced_insertion:
  assumes "fm_lines \<noteq> []"
  shows "\<exists>pre post. pre \<noteq> [] \<and> fm_lines = pre @ post
     \<and> spliced p fm_lines = pre @ added p fm_lines @ post"
  unfolding spliced_def added_def by (rule splice_lines_insertion_nonempty [OF assms])

lemma added_props:
  "added p fm_lines \<noteq> []"
  "''---'' \<notin> set (added p fm_lines)"
  "\<forall>l\<in>set (added p fm_lines). CHR 0x0A \<notin> set l"
  unfolding added_def by (rule additions_props)+

lemma parse_rewritten:
  assumes pc: "parse_frontmatter content = Inr (fm, body, raw)"
  shows "parse_frontmatter (rewritten p content)
           = Inr (str_join ''\<newline>'' (spliced p (str_split ''\<newline>'' fm)), body,
                  start_marker @ str_join ''\<newline>'' (spliced p (str_split ''\<newline>'' fm)) @ end_marker)"
    and "str_split ''\<newline>'' (str_join ''\<newline>'' (spliced p (str_split ''\<newline>'' fm)))
           = spliced p (str_split ''\<newline>'' fm)"
proof -
  let ?fl = "str_split ''\<newline>'' fm"
  let ?nls = "spliced p ?fl"
  let ?L = "str_join ''\<newline>'' ?nls"
  from pc obtain i where f: "find_sub end_marker (drop 4 content) = Some i"
    and fm: "fm = take i (drop 4 content)"
    by (auto simp: parse_frontmatter_Inr)
  from block_no_marker_line [OF f] fm have nm: "''---'' \<notin> set (tl ?fl)" by simp
  have fne: "?fl \<noteq> []" by (rule str_split_nonempty)
  from spliced_insertion [OF fne, of p]
  obtain pre post where pre: "pre \<noteq> []" and fl: "?fl = pre @ post"
    and nl: "?nls = pre @ added p ?fl @ post"
    by blast
  have ne: "?nls \<noteq> []" using nl pre by simp
  have fnl: "\<forall>l\<in>set ?fl. CHR 0x0A \<notin> set l"
    using str_split_single_props [of "CHR 0x0A" fm] by simp
  have "\<forall>l\<in>set (pre @ added p ?fl @ post). CHR 0x0A \<notin> set l"
    using fnl added_props(3) [of p ?fl] unfolding fl by auto
  then have nonl: "\<forall>l\<in>set ?nls. CHR 0x0A \<notin> set l" unfolding nl .
  have "tl ?nls = tl pre @ added p ?fl @ post"
    unfolding nl using pre by simp
  moreover have "tl ?fl = tl pre @ post" unfolding fl using pre by simp
  ultimately have nm': "''---'' \<notin> set (tl ?nls)"
    using nm added_props(2) [of p ?fl] by auto
  show "str_split ''\<newline>'' ?L = ?nls"
    using str_split_join_single [OF ne nonl] by simp
  have rw: "rewritten p content = start_marker @ ?L @ end_marker @ body"
    by (rule rewritten_eq [OF pc])
  have d4: "drop 4 (rewritten p content) = ?L @ end_marker @ body"
    unfolding rw by (simp add: length_start_marker)
  have fs: "find_sub end_marker (drop 4 (rewritten p content)) = Some (length ?L)"
    unfolding d4 by (rule joined_block_found [OF ne nonl nm'])
  have pr: "prefix start_marker (rewritten p content)" unfolding rw by simp
  have t: "take (4 + length ?L + 5) (rewritten p content) = start_marker @ ?L @ end_marker"
  proof -
    have "4 + length ?L + 5 = length (start_marker @ ?L @ end_marker)"
      by (simp add: length_start_marker length_end_marker)
    moreover have "rewritten p content = (start_marker @ ?L @ end_marker) @ body"
      unfolding rw by simp
    ultimately show ?thesis by (metis append_eq_conv_conj)
  qed
  show "parse_frontmatter (rewritten p content)
           = Inr (?L, body, start_marker @ ?L @ end_marker)"
    unfolding parse_frontmatter_markers using pr fs t
    by (simp add: d4 length_end_marker)
qed

subsection \<open>Counting the flag lines\<close>

lemma frontmatter_lines_rewritten:
  assumes "parse_frontmatter content = Inr (fm, body, raw)"
  shows "frontmatter_lines (rewritten p content) = spliced p (frontmatter_lines content)"
  using parse_rewritten [OF assms, of p] assms by (simp add: frontmatter_lines_def)

lemma file_lines_parsed:
  assumes "parse_frontmatter content = Inr (fm, body, raw)"
  shows "file_lines content = ''---'' # frontmatter_lines content @ ''---'' # file_lines body"
proof -
  have "file_lines content = file_lines (start_marker @ fm @ end_marker @ body)"
    using parse_frontmatter_framed [OF assms] by simp
  then show ?thesis using assms by (simp add: file_lines_framed frontmatter_lines_def)
qed

lemma filter_count_rewritten:
  assumes pc: "parse_frontmatter content = Inr (fm, body, raw)"
  shows "length (filter P (file_lines (rewritten p content)))
     = length (filter P (file_lines content))
       + length (filter P (added p (frontmatter_lines content)))"
proof -
  let ?fl = "frontmatter_lines content"
  have fl: "?fl = str_split ''\<newline>'' fm" using pc by (simp add: frontmatter_lines_def)
  have fne: "?fl \<noteq> []" unfolding fl by (rule str_split_nonempty)
  from spliced_insertion [OF fne, of p] obtain pre post
    where pp: "?fl = pre @ post" and sp: "spliced p ?fl = pre @ added p ?fl @ post"
    by blast
  from parse_rewritten(1) [OF pc, of p] have
    "file_lines (rewritten p content)
       = ''---'' # frontmatter_lines (rewritten p content) @ ''---'' # file_lines body"
    by (rule file_lines_parsed)
  then have 1: "file_lines (rewritten p content) = ''---'' # spliced p ?fl @ ''---'' # file_lines body"
    unfolding frontmatter_lines_rewritten [OF pc] .
  have 2: "file_lines content = ''---'' # ?fl @ ''---'' # file_lines body"
    by (rule file_lines_parsed [OF pc])
  have "length (filter P (spliced p ?fl)) = length (filter P ?fl) + length (filter P (added p ?fl))"
  proof -
    have "length (filter P (pre @ added p ?fl @ post))
        = length (filter P (pre @ post)) + length (filter P (added p ?fl))"
      by simp
    then show ?thesis using pp sp by metis
  qed
  then show ?thesis unfolding 1 2 by simp
qed

lemma added_flag_count:
  "length (filter (\<lambda>l. l = ''user-invocable: true'') (added p fm_lines))
     = (if persona_path p \<and> \<not> has_user_invocable fm_lines then 1 else 0)"
  "length (filter (\<lambda>l. prefix ''user-invocable:'' l) (added p fm_lines))
     = (if persona_path p \<and> \<not> has_user_invocable fm_lines then 1 else 0)"
  using build_metadata_line_neq(2,3) [of "path_str (parent p)" "path_name (parent p)"]
  by (simp_all add: added_def additions_def has_user_invocable_iff)

lemma has_user_invocable_spliced:
  assumes "fm_lines \<noteq> []" and "persona_path p"
  shows "has_user_invocable (spliced p fm_lines)"
proof -
  from spliced_insertion [OF assms(1), of p] obtain pre post
    where pp: "fm_lines = pre @ post" and sp: "spliced p fm_lines = pre @ added p fm_lines @ post"
    by blast
  show ?thesis
  proof (cases "has_user_invocable fm_lines")
    case True
    then obtain l where "l \<in> set fm_lines" "prefix ''user-invocable:'' l"
      by (auto simp: has_user_invocable_iff)
    then have "l \<in> set (pre @ added p fm_lines @ post)" using pp by auto
    with \<open>prefix ''user-invocable:'' l\<close> show ?thesis
      unfolding sp has_user_invocable_iff by blast
  next
    case False
    with assms(2) have "''user-invocable: true'' \<in> set (added p fm_lines)"
      by (simp add: added_def additions_def has_user_invocable_iff)
    then have "''user-invocable: true'' \<in> set (pre @ added p fm_lines @ post)" by simp
    moreover have "prefix ''user-invocable:'' ''user-invocable: true''" by simp
    ultimately show ?thesis unfolding sp has_user_invocable_iff by blast
  qed
qed

subsection \<open>Repeated runs\<close>

lemma would_modify_parsed:
  assumes "would_modify content"
  obtains fm body raw where "parse_frontmatter content = Inr (fm, body, raw)"
  using assms by (cases "parse_frontmatter content") (auto simp: would_modify_def)

lemma rerun_counts:
  "flag_lines (rerun p content) = flag_lines content + gain p content"
  "field_lines (rerun p content) = field_lines content + gain p content"
proof -
  show "flag_lines (rerun p content) = flag_lines content + gain p content"
  proof (cases "would_modify content")
    case False
    then show ?thesis by (simp add: rerun_def gain_def)
  next
    case True
    then obtain fm body raw where pc: "parse_frontmatter content = Inr (fm, body, raw)"
      by (rule would_modify_parsed)
    from filter_count_rewritten [OF pc, of "\<lambda>l. l = ''user-invocable: true''" p] True
    show ?thesis
      by (simp add: rerun_def gain_def flag_lines_def added_flag_count has_user_invocable_iff)
  qed
  show "field_lines (rerun p content) = field_lines content + gain p content"
  proof (cases "would_modify content")
    case False
    then show ?thesis by (simp add: rerun_def gain_def)
  next
    case True
    then obtain fm body raw where pc: "parse_frontmatter content = Inr (fm, body, raw)"
      by (rule would_modify_parsed)
    from filter_count_rewritten [OF pc, of "\<lambda>l. prefix ''user-invocable:'' l" p] True
    show ?thesis
      by (simp add: rerun_def gain_def field_lines_def added_flag_count has_user_invocable_iff)
  qed
qed

lemma gain_rerun: "gain p (rerun p content) = 0"
proof (cases "would_modify content \<and> persona_path p")
  case False
  then show ?thesis by (auto simp: rerun_def gain_def)
next
  case True
  then obtain fm body raw where pc: "parse_frontmatter content = Inr (fm, body, raw)"
    using would_modify_parsed by blast
  have "frontmatter_lines content = str_split ''\<newline>'' fm"
    using pc by (simp add: frontmatter_lines_def)
  then have "frontmatter_lines content \<noteq> []" by (simp add: str_split_nonempty)
  with True have "has_user_invocable (spliced p (frontmatter_lines content))"
    by (simp add: has_user_invocable_spliced)
  then have "\<exists>l\<in>set (frontmatter_lines (rewritten p content)). prefix ''user-invocable:'' l"
    unfolding frontmatter_lines_rewritten [OF pc] has_user_invocable_iff .
  with True show ?thesis by (simp add: rerun_def gain_def)
qed

lemma rerun_times_counts:
  "flag_lines ((rerun p ^^ n) content) = flag_lines content + (if 1 \<le> n then gain p content else 0)"
  "field_lines ((rerun p ^^ n) content) = field_lines content + (if 1 \<le> n then gain p content else 0)"
proof -
  show "flag_lines ((rerun p ^^ n) content)
      = flag_lines content + (if 1 \<le> n then gain p content else 0)"
  proof (induction n arbitrary: content)
    case 0
    then show ?case by simp
  next
    case (Suc n)
    have "(rerun p ^^ Suc n) content = (rerun p ^^ n) (rerun p content)"
      by (simp add: funpow_swap1)
    with Suc [of "rerun p content"] show ?case
      by (simp add: gain_rerun rerun_counts)
  qed
  show "field_lines ((rerun p ^^ n) content)
      = field_lines content + (if 1 \<le> n then gain p content else 0)"
  proof (induction n arbitrary: content)
    case 0
    then show ?case by simp
  next
    case (Suc n)
    have "(rerun p ^^ Suc n) content = (rerun p ^^ n) (rerun p content)"
      by (simp add: funpow_swap1)
    with Suc [of "rerun p content"] show ?case
      by (simp add: gain_rerun rerun_counts)
  qed
qed

lemma rerun_times_fixed:
  "\<not> would_modify content \<Longrightarrow> (rerun p ^^ n) content = content"
  by (induction n) (simp_all add: rerun_def)

lemma process_skill_rerun:
  assumes "map_of (files w) p = Some content"
  shows "\<exists>w'. process_skill p False verbose w = Inr (would_modify content, w')
           \<and> map_of (files w') p = Some (rerun p content)"
proof -
  from process_skill_summary [OF assms, of False verbose] obtain out where
    ps: "process_skill p False verbose w = Inr (would_modify content,
          w\<lparr>files := (if would_modify content \<and> \<not> False
                       then AList.update p (rewritten p content) (files w) else files w),
            stdout := stdout w @ out\<rparr>)"
    by blast
  let ?w' = "w\<lparr>files := (if would_modify content \<and> \<not> False
                       then AList.update p (rewritten p content) (files w) else files w),
            stdout := stdout w @ out\<rparr>"
  have "map_of (files ?w') p = Some (rerun p content)"
    using assms by (simp add: rerun_def update_conv')
  with ps show ?thesis by blast
qed

lemma run_times_content:
  assumes "map_of (files w) p = Some content"
  shows "\<exists>w'. run_times n p verbose w = Inr w'
           \<and> map_of (files w') p = Some ((rerun p ^^ n) content)"
  using assms
proof (induction n arbitrary: w content)
  case 0
  then show ?case by simp
next
  case (Suc n)
  from process_skill_rerun [OF Suc.prems, of verbose] obtain w1 where
    ps: "process_skill p False verbose w = Inr (would_modify content, w1)"
    and c1: "map_of (files w1) p = Some (rerun p content)"
    by blast
  from Suc.IH [OF c1] obtain w' where
    r: "run_times n p verbose w1 = Inr w'"
    and c: "map_of (files w') p = Some ((rerun p ^^ n) (rerun p content))"
    by blast
  have "(rerun p ^^ Suc n) content = (rerun p ^^ n) (rerun p content)"
    by (simp add: funpow_swap1)
  with ps r c show ?case by simp
qed

subsection \<open>The scope of the flag\<close>

text \<open>
  Claim C8, as amended. After any number of write-mode runs on a file: a file outside the
  persona category has as many lines defining the flag field, and as many flag lines, as
  before. A persona file that the orchestrator rewrites and whose frontmatter block has no line
  defining the field has, after one run or more, exactly one flag line more (the line
  \<^verbatim>\<open>user-invocable: true\<close>); one whose block already defines the field has none more. A file
  that the orchestrator does not rewrite (it is skipped or does not parse) stays as it is.
\<close>

theorem flag_injection_scoping:
  assumes "map_of (files w) p = Some content"
  shows "\<exists>w' content'. run_times n p verbose w = Inr w' \<and> map_of (files w') p = Some content'
     \<and> (\<not> persona_path p \<longrightarrow>
          field_lines content' = field_lines content \<and> flag_lines content' = flag_lines content)
     \<and> (persona_path p \<and> 1 \<le> n \<and> would_modify content
          \<and> \<not> (\<exists>l\<in>set (frontmatter_lines content). prefix ''user-invocable:'' l) \<longrightarrow>
          flag_lines content' = flag_lines content + 1
          \<and> field_lines content' = field_lines content + 1)
     \<and> (persona_path p \<and> (\<exists>l\<in>set (frontmatter_lines content). prefix ''user-invocable:'' l) \<longrightarrow>
          flag_lines content' = flag_lines content \<and> field_lines content' = field_lines content)
     \<and> (\<not> would_modify content \<longrightarrow> content' = content)"
proof -
  from run_times_content [OF assms, of n verbose] obtain w' where
    r: "run_times n p verbose w = Inr w'"
    and c: "map_of (files w') p = Some ((rerun p ^^ n) content)"
    by blast
  let ?c' = "(rerun p ^^ n) content"
  have 1: "\<not> persona_path p \<longrightarrow>
          field_lines ?c' = field_lines content \<and> flag_lines ?c' = flag_lines content"
    by (simp add: rerun_times_counts gain_def)
  have 2: "persona_path p \<and> 1 \<le> n \<and> would_modify content
          \<and> \<not> (\<exists>l\<in>set (frontmatter_lines content). prefix ''user-invocable:'' l) \<longrightarrow>
          flag_lines ?c' = flag_lines content + 1 \<and> field_lines ?c' = field_lines content + 1"
    by (simp add: rerun_times_counts gain_def)
  have 3: "persona_path p \<and> (\<exists>l\<in>set (frontmatter_lines content). prefix ''user-invocable:'' l) \<longrightarrow>
          flag_lines ?c' = flag_lines content \<and> field_lines ?c' = field_lines content"
    by (simp add: rerun_times_counts gain_def)
  have 4: "\<not> would_modify content \<longrightarrow> ?c' = content"
    by (simp add: rerun_times_fixed)
  from r c 1 2 3 4 show ?thesis by blast
qed

lemma scenario_would_modify: "would_modify scenario_doc"
  using scenario_not_skipped scenario_parse by (simp add: would_modify_def)

lemma scenario_frontmatter_lines:
  "frontmatter_lines scenario_doc = [''name: my-skill'', ''description: does a thing'']"
  by (simp add: frontmatter_lines_def scenario_parse scenario_lines)

lemma scenario_flag_lines: "flag_lines scenario_doc = 0"
  unfolding flag_lines_def file_lines_def scenario_doc_def by code_simp

text \<open>Claim C8, as amended, on the scenario's document under a persona path: after two runs it
  has one flag line.\<close>

theorem flag_injection_scoping_witness:
  "\<exists>w' content'.
     run_times 2 [''personas'', ''api'', ''api-tester'', ''SKILL.md''] False
       \<lparr>files = [([''personas'', ''api'', ''api-tester'', ''SKILL.md''], scenario_doc)], stdout = []\<rparr>
       = Inr w'
     \<and> map_of (files w') [''personas'', ''api'', ''api-tester'', ''SKILL.md''] = Some content'
     \<and> flag_lines content' = 1"
proof -
  let ?p = "[''personas'', ''api'', ''api-tester'', ''SKILL.md'']"
  let ?w = "\<lparr>files = [(?p, scenario_doc)], stdout = []\<rparr>"
  have 1: "map_of (files ?w) ?p = Some scenario_doc" by simp
  have 2: "persona_path ?p"
    by (simp add: persona_path_def parent_def path_str_def startswith_def)
  have 3: "\<not> (\<exists>l\<in>set (frontmatter_lines scenario_doc). prefix ''user-invocable:'' l)"
    by (simp add: scenario_frontmatter_lines)
  from flag_injection_scoping [OF 1, of 2 False] obtain w' content' where
    r: "run_times 2 ?p False ?w = Inr w'" and c: "map_of (files w') ?p = Some content'"
    and i: "persona_path ?p \<and> 1 \<le> (2::nat) \<and> would_modify scenario_doc
          \<and> \<not> (\<exists>l\<in>set (frontmatter_lines scenario_doc). prefix ''user-invocable:'' l) \<longrightarrow>
          flag_lines content' = flag_lines scenario_doc + 1
          \<and> field_lines content' = field_lines scenario_doc + 1"
    by blast
  from i 2 3 scenario_would_modify scenario_flag_lines
  have "flag_lines content' = 1" by simp
  with r c show ?thesis by blast
qed

text \<open>
  Claim C8 as it is stated fails: this persona document has a \<^verbatim>\<open>metadata:\<close> line and no line
  defining the flag field; both runs skip it, and it never receives the flag line.
\<close>

theorem flag_injection_scoping_counterexample:
  "persona_path [''personas'', ''web'', ''a'', ''SKILL.md'']
   \<and> parse_frontmatter ''---\<newline>name: a\<newline>metadata: {}\<newline>---\<newline>Body\<newline>''
       = Inr (''name: a\<newline>metadata: {}'', ''Body\<newline>'', ''---\<newline>name: a\<newline>metadata: {}\<newline>---\<newline>'')
   \<and> \<not> has_user_invocable (str_split ''\<newline>'' ''name: a\<newline>metadata: {}'')
   \<and> run_times 2 [''personas'', ''web'', ''a'', ''SKILL.md''] False
        \<lparr>files = [([''personas'', ''web'', ''a'', ''SKILL.md''],
                    ''---\<newline>name: a\<newline>metadata: {}\<newline>---\<newline>Body\<newline>'')],
         stdout = []\<rparr>
      = Inr \<lparr>files = [([''personas'', ''web'', ''a'', ''SKILL.md''],
                       ''---\<newline>name: a\<newline>metadata: {}\<newline>---\<newline>Body\<newline>'')],
            stdout = []\<rparr>
   \<and> flag_lines ''---\<newline>name: a\<newline>metadata: {}\<newline>---\<newline>Body\<newline>'' = 0"
  by code_simp

text \<open>
  Claim C1 fails on the code. This document has an empty metadata block and a rule \<^verbatim>\<open>---\<close> in
  its body. The first run takes the text up to the rule as the block and appends the metadata
  line to it; the second run does not skip the file, returns \<open>True\<close> again and appends the
  metadata line once more.
\<close>

theorem process_skill_not_idempotent:
  \<open>process_skill [''agents'', ''system'', ''notes'', ''SKILL.md''] False False
     \<lparr>files = [([''agents'', ''system'', ''notes'', ''SKILL.md''],
                 ''---\<newline>---\<newline># Notes\<newline>---\<newline>More\<newline>'')],
      stdout = []\<rparr>
   = Inr (True,
       \<lparr>files = [([''agents'', ''system'', ''notes'', ''SKILL.md''],
          ''---\<newline>---\<newline># Notes\<newline>''
          @ ''metadata: {"openclaw": {"emoji": "'' @ [CHR 0xF0, CHR 0x9F, CHR 0x93, CHR 0x81]
          @ ''", "os": ["darwin", "linux", "win32"]}}''
          @ ''\<newline>---\<newline>More\<newline>'')],
        stdout = []\<rparr>)
   \<and> process_skill [''agents'', ''system'', ''notes'', ''SKILL.md''] False False
       \<lparr>files = [([''agents'', ''system'', ''notes'', ''SKILL.md''],
          ''---\<newline>---\<newline># Notes\<newline>''
          @ ''metadata: {"openclaw": {"emoji": "'' @ [CHR 0xF0, CHR 0x9F, CHR 0x93, CHR 0x81]
          @ ''", "os": ["darwin", "linux", "win32"]}}''
          @ ''\<newline>---\<newline>More\<newline>'')],
        stdout = []\<rparr>
   = Inr (True,
       \<lparr>files = [([''agents'', ''system'', ''notes'', ''SKILL.md''],
          ''---\<newline>---\<newline># Notes\<newline>''
          @ ''metadata: {"openclaw": {"emoji": "'' @ [CHR 0xF0, CHR 0x9F, CHR 0x93, CHR 0x81]
          @ ''", "os": ["darwin", "linux", "win32"]}}''
          @ ''\<newline>''
          @ ''metadata: {"openclaw": {"emoji": "'' @ [CHR 0xF0, CHR 0x9F, CHR 0x93, CHR 0x81]
          @ ''", "os": ["darwin", "linux", "win32"]}}''
          @ ''\<newline>---\<newline>More\<newline>'')],
        stdout = []\<rparr>)\<close>
  by code_simp

subsection \<open>The second run\<close>

lemma str_contains_iff: "str_contains sub s \<longleftrightarrow> (\<exists>a b. s = a @ sub @ b)"
  by (simp add: str_contains_def find_sub_None_no_split)

lemma str_join_Cons: "xs \<noteq> [] \<Longrightarrow> str_join sep (x # xs) = x @ sep @ str_join sep xs"
  by (cases xs) simp_all

lemma str_join_hd: "\<exists>t. str_join sep (x # xs) = x @ t"
  by (cases xs) simp_all

lemma spliced_block_props:
  assumes pc: "parse_frontmatter content = Inr (fm, body, raw)"
  shows "\<exists>pre post. pre \<noteq> [] \<and> frontmatter_lines content = pre @ post
           \<and> spliced p (frontmatter_lines content) = pre @ added p (frontmatter_lines content) @ post"
    and "\<forall>l\<in>set (spliced p (frontmatter_lines content)). CHR 0x0A \<notin> set l"
    and "''---'' \<notin> set (tl (spliced p (frontmatter_lines content)))"
proof -
  let ?fl = "frontmatter_lines content"
  let ?nls = "spliced p ?fl"
  have fl: "?fl = str_split ''\<newline>'' fm" using pc by (simp add: frontmatter_lines_def)
  from pc obtain i where f: "find_sub end_marker (drop 4 content) = Some i"
    and fm: "fm = take i (drop 4 content)"
    by (auto simp: parse_frontmatter_Inr)
  from block_no_marker_line [OF f] fm fl have nm: "''---'' \<notin> set (tl ?fl)" by simp
  have fne: "?fl \<noteq> []" unfolding fl by (rule str_split_nonempty)
  from spliced_insertion [OF fne, of p]
  obtain pre post where pre: "pre \<noteq> []" and flp: "?fl = pre @ post"
    and nl: "?nls = pre @ added p ?fl @ post"
    by blast
  then show "\<exists>pre post. pre \<noteq> [] \<and> ?fl = pre @ post \<and> ?nls = pre @ added p ?fl @ post"
    by blast
  have fnl: "\<forall>l\<in>set ?fl. CHR 0x0A \<notin> set l"
    unfolding fl using str_split_single_props [of "CHR 0x0A" fm] by simp
  have "\<forall>l\<in>set (pre @ added p ?fl @ post). CHR 0x0A \<notin> set l"
    using fnl added_props(3) [of p ?fl] unfolding flp by auto
  then show "\<forall>l\<in>set ?nls. CHR 0x0A \<notin> set l" unfolding nl .
  have "tl ?nls = tl pre @ added p ?fl @ post"
    unfolding nl using pre by simp
  moreover have "tl ?fl = tl pre @ post" unfolding flp using pre by simp
  ultimately show "''---'' \<notin> set (tl ?nls)"
    using nm added_props(2) [of p ?fl] by auto
qed

lemma rewritten_skipped:
  assumes pc: "parse_frontmatter content = Inr (fm, body, raw)"
    and hd: "hd (frontmatter_lines content) \<noteq> ''---''"
  shows "skipped (rewritten p content)"
proof -
  let ?fl = "frontmatter_lines content"
  let ?nls = "spliced p ?fl"
  let ?ls = "''---'' # ?nls"
  let ?ml = "build_metadata_line (path_str (parent p)) (path_name (parent p))"
  have fl: "?fl = str_split ''\<newline>'' fm" using pc by (simp add: frontmatter_lines_def)
  from spliced_block_props [OF pc, of p] obtain pre post where
    pre: "pre \<noteq> []" and flp: "?fl = pre @ post" and nl: "?nls = pre @ added p ?fl @ post"
    and nonl: "\<forall>l\<in>set ?nls. CHR 0x0A \<notin> set l" and nm: "''---'' \<notin> set (tl ?nls)"
    by blast
  have ne: "?nls \<noteq> []" using nl pre by simp
  have "hd ?nls = hd ?fl" using nl flp pre by simp
  with hd have "hd ?nls \<noteq> ''---''" by simp
  with nm ne have nm': "''---'' \<notin> set (tl ?ls)"
    by (cases ?nls) auto
  have nonl': "\<forall>l\<in>set ?ls. CHR 0x0A \<notin> set l" using nonl by simp
  have j: "str_join ''\<newline>'' ?ls = start_marker @ str_join ''\<newline>'' ?nls"
    using str_join_Cons [OF ne, of "''\<newline>''" "''---''"] by (simp add: start_marker_def)
  have rw: "rewritten p content = str_join ''\<newline>'' ?ls @ end_marker @ body"
    unfolding j using rewritten_eq [OF pc, of p] fl by simp
  have fs: "find_sub end_marker (rewritten p content) = Some (length (str_join ''\<newline>'' ?ls))"
    unfolding rw by (rule joined_block_found [OF _ nonl' nm']) simp
  have tk: "take (length (str_join ''\<newline>'' ?ls)) (rewritten p content) = str_join ''\<newline>'' ?ls"
    unfolding rw by simp
  obtain as where ad: "added p ?fl = ?ml # as" by (simp add: added_def additions_def)
  obtain m' where ml: "?ml = ''metadata:'' @ m'"
    using build_metadata_line_prefix [of "path_str (parent p)" "path_name (parent p)"]
    by (auto simp: prefix_def)
  obtain t where t: "str_join ''\<newline>'' (?ml # as @ post) = ?ml @ t"
    using str_join_hd by blast
  have "str_join ''\<newline>'' ?nls = str_join ''\<newline>'' pre @ ''\<newline>'' @ str_join ''\<newline>'' (?ml # as @ post)"
    unfolding nl ad using str_join_append [OF pre, of "?ml # as @ post" "''\<newline>''"] by simp
  then have a: "str_join ''\<newline>'' ?nls = str_join ''\<newline>'' pre @ ''\<newline>'' @ (?ml @ t)"
    unfolding t .
  have b: "?ml @ t = ''metadata:'' @ (m' @ t)"
    by (subst ml) simp
  have "str_join ''\<newline>'' ?nls = str_join ''\<newline>'' pre @ ''\<newline>metadata:'' @ (m' @ t)"
    unfolding a b by simp
  then have "str_join ''\<newline>'' ?ls
      = (start_marker @ str_join ''\<newline>'' pre) @ ''\<newline>metadata:'' @ (m' @ t)"
    unfolding j by simp
  then have "str_contains ''\<newline>metadata:'' (str_join ''\<newline>'' ?ls)"
    unfolding str_contains_iff by blast
  then show ?thesis unfolding skipped_eq fs using tk by simp
qed

lemma rewritten_neq:
  assumes "parse_frontmatter content = Inr (fm, body, raw)"
  shows "rewritten p content \<noteq> content"
proof
  assume "rewritten p content = content"
  with filter_count_rewritten [OF assms, of "\<lambda>l. True" p]
  have "length (added p (frontmatter_lines content)) = 0" by simp
  with added_props(1) [of p "frontmatter_lines content"] show False by simp
qed

lemma rewritten_not_skipped:
  assumes pc: "parse_frontmatter content = Inr (fm, body, raw)"
    and hd: "hd (frontmatter_lines content) = ''---''"
  shows "\<not> skipped (rewritten p content)" and "would_modify (rewritten p content)"
proof -
  let ?fl = "frontmatter_lines content"
  let ?nls = "spliced p ?fl"
  have fl: "?fl = str_split ''\<newline>'' fm" using pc by (simp add: frontmatter_lines_def)
  from spliced_block_props(1) [OF pc, of p] obtain pre post where
    pre: "pre \<noteq> []" and flp: "?fl = pre @ post" and nl: "?nls = pre @ added p ?fl @ post"
    by blast
  have "hd pre = ''---''" using hd flp pre by simp
  with pre obtain pre' where p': "pre = ''---'' # pre'" by (cases pre) auto
  have "pre' @ added p ?fl @ post \<noteq> []" using added_props(1) [of p ?fl] by simp
  then have "str_join ''\<newline>'' (''---'' # (pre' @ added p ?fl @ post))
      = ''---'' @ ''\<newline>'' @ str_join ''\<newline>'' (pre' @ added p ?fl @ post)"
    by (rule str_join_Cons)
  then obtain t where t: "str_join ''\<newline>'' ?nls = ''---\<newline>'' @ t"
    unfolding nl p' by simp
  have "rewritten p content = ''---\<newline>---\<newline>'' @ (t @ end_marker @ body)"
    using rewritten_eq [OF pc, of p] fl t by (simp add: start_marker_def)
  then have "find_sub end_marker (rewritten p content) = Some 3"
    by (simp add: end_marker_def)
  moreover have "\<not> str_contains ''\<newline>metadata:'' (take 3 (rewritten p content))"
    using str_contains_length [of "''\<newline>metadata:''" "take 3 (rewritten p content)"] by auto
  ultimately show ns: "\<not> skipped (rewritten p content)" by (simp add: skipped_eq)
  with parse_rewritten(1) [OF pc, of p] show "would_modify (rewritten p content)"
    by (simp add: would_modify_def)
qed

text \<open>
  Running the orchestrator again after a write-mode run: the second run reports the file as
  unmodified and leaves it as it is whenever the first line of the file's block is not a
  marker line. When it is one (the text begins with two marker lines) and the file parses,
  the second run rewrites the file again, to a different text.
\<close>

lemma process_skill_second_run:
  assumes c: "map_of (files w) p = Some content"
    and r1: "process_skill p False verbose w = Inr (b, w1)"
  shows "hd (frontmatter_lines content) \<noteq> ''---'' \<Longrightarrow>
           \<exists>w2. process_skill p False verbose' w1 = Inr (False, w2) \<and> files w2 = files w1"
    and "hd (frontmatter_lines content) = ''---'' \<Longrightarrow> would_modify content \<Longrightarrow>
           \<exists>w2. process_skill p False verbose' w1 = Inr (True, w2)
             \<and> map_of (files w2) p \<noteq> map_of (files w1) p"
proof -
  from process_skill_rerun [OF c, of verbose] r1
  have b: "b = would_modify content" and c1: "map_of (files w1) p = Some (rerun p content)"
    by auto
  {
    assume hd: "hd (frontmatter_lines content) \<noteq> ''---''"
    show "\<exists>w2. process_skill p False verbose' w1 = Inr (False, w2) \<and> files w2 = files w1"
    proof (cases "would_modify content")
      case True
      then obtain fm body raw where pc: "parse_frontmatter content = Inr (fm, body, raw)"
        by (rule would_modify_parsed)
      from rewritten_skipped [OF pc hd, of p] True have "skipped (rerun p content)"
        by (simp add: rerun_def)
      from process_skill_skipped [OF c1 this, of False verbose'] show ?thesis by simp
    next
      case False
      then have "\<not> would_modify (rerun p content)" by (simp add: rerun_def)
      with process_skill_summary [OF c1, of False verbose'] show ?thesis by auto
    qed
  }
  {
    assume hd: "hd (frontmatter_lines content) = ''---''" and wm: "would_modify content"
    from wm obtain fm body raw where pc: "parse_frontmatter content = Inr (fm, body, raw)"
      by (rule would_modify_parsed)
    from wm have rr: "rerun p content = rewritten p content" by (simp add: rerun_def)
    from rewritten_not_skipped(2) [OF pc hd, of p] have wm2: "would_modify (rewritten p content)" .
    from process_skill_rerun [OF c1, of verbose'] obtain w2 where
      p2: "process_skill p False verbose' w1 = Inr (would_modify (rerun p content), w2)"
      and c2: "map_of (files w2) p = Some (rerun p (rerun p content))"
      by blast
    from parse_rewritten(1) [OF pc, of p]
    have "rewritten p (rewritten p content) \<noteq> rewritten p content"
      by (rule rewritten_neq)
    with wm2 rr have "rerun p (rerun p content) \<noteq> rerun p content" by (simp add: rerun_def)
    with c1 c2 have "map_of (files w2) p \<noteq> map_of (files w1) p" by simp
    with p2 wm2 rr show "\<exists>w2. process_skill p False verbose' w1 = Inr (True, w2)
             \<and> map_of (files w2) p \<noteq> map_of (files w1) p"
      by auto
  }
qed

end
